theory Spec2Isabelle
  imports Complex_Main "HOL-Library.AList" "HOL-Library.Log_Nat"
begin

section \<open>Imported helpers and types\<close>

text \<open>
  \<^verbatim>\<open>textinput.ts\<close> imports \<^verbatim>\<open>isWhitespace\<close> and \<^verbatim>\<open>toCodePoints\<close> from
  \<^verbatim>\<open>@keybr/unicode\<close> and \<^verbatim>\<open>normalize\<close>, \<^verbatim>\<open>normalizeWhitespace\<close> from
  \<^verbatim>\<open>./normalize.ts\<close>. Their bodies are not part of the sources at hand, so they are
  parameters of the model: every function below that calls one of them takes the record
  \<open>u\<close> of the four helpers. Code points and time stamps are JavaScript numbers holding
  integers and are modelled as \<open>int\<close>.
\<close>

record externals =
  isWhitespace :: "int \<Rightarrow> bool"
  normalize' :: "int \<Rightarrow> int"
  normalizeWhitespace :: "int \<Rightarrow> int"
  toCodePoints :: "string \<Rightarrow> int list"

text \<open>
  \<^verbatim>\<open>./types.ts\<close> declares \<^verbatim>\<open>Feedback\<close>, \<^verbatim>\<open>Step\<close>, \<^verbatim>\<open>Char\<close>, \<^verbatim>\<open>Sample\<close> and the five
  numeric attribute constants. The shapes of the types are fixed by their uses in the
  sources; the values of the attribute constants are parameters.
\<close>

datatype Feedback = Succeeded | Recovered | Failed

record Step =
  codePoint :: int
  timeStamp :: int
  typo :: bool

record CharT =
  char_codePoint :: int
  attrs :: int

record attr_consts =
  attrNormal :: int
  attrHit :: int
  attrMiss :: int
  attrGarbage :: int
  attrCursor :: int

section \<open>The keystroke state machine (class TextInput)\<close>

text \<open>
  The fields of the class. The private field \<^verbatim>\<open>#typo\<close> is called \<open>typoFlag\<close>, since
  \<open>typo\<close> is already the field of a step. The listener \<^verbatim>\<open>#onStep\<close> is an external sink:
  the steps handed to it are an output of every operation that commits, kept as the
  second component of a pair \<open>(ti, out)\<close>.
\<close>

record TextInput =
  text' :: string
  codePoints :: "int list"
  stopOnError :: bool
  forgiveErrors :: bool
  spaceSkipsWords :: bool
  steps :: "Step list"
  garbage :: "Step list"
  typoFlag :: bool

datatype error = Error

definition recoverBufferLength :: nat where
  "recoverBufferLength = 3"

definition garbageBufferLength :: nat where
  "garbageBufferLength = 10"

definition reset :: "TextInput \<Rightarrow> TextInput" where
  "reset ti = ti\<lparr>steps := [], garbage := [], typoFlag := False\<rparr>"

definition TextInput_new :: "externals \<Rightarrow> string \<Rightarrow> bool \<Rightarrow> bool \<Rightarrow> bool \<Rightarrow> TextInput" where
  "TextInput_new u txt stopOnError0 forgiveErrors0 spaceSkipsWords0 =
     reset \<lparr>text' = txt, codePoints = toCodePoints u txt,
            stopOnError = stopOnError0, forgiveErrors = forgiveErrors0,
            spaceSkipsWords = spaceSkipsWords0,
            steps = [], garbage = [], typoFlag = False\<rparr>"

definition completed :: "TextInput \<Rightarrow> bool" where
  "completed ti \<longleftrightarrow> length (steps ti) = length (codePoints ti)"

definition addStep :: "Step \<Rightarrow> TextInput \<times> Step list \<Rightarrow> TextInput \<times> Step list" where
  "addStep st w = (case w of (ti, out) \<Rightarrow> (ti\<lparr>steps := steps ti @ [st]\<rparr>, out @ [st]))"

text \<open>The while loop of \<^verbatim>\<open>#handleSpace\<close>: it commits the rest of the word as typos.\<close>

function handleSpace_loop :: "externals \<Rightarrow> int \<Rightarrow> TextInput \<times> Step list \<Rightarrow> TextInput \<times> Step list" where
  "handleSpace_loop u ts w =
     (if length (steps (fst w)) < length (codePoints (fst w)) \<and>
         \<not> isWhitespace u (codePoints (fst w) ! length (steps (fst w)))
      then handleSpace_loop u ts
             (addStep \<lparr>codePoint = codePoints (fst w) ! length (steps (fst w)),
                       timeStamp = ts, typo = True\<rparr> w)
      else w)"
  by pat_completeness auto
termination
  by (relation "measure (\<lambda>(u, ts, w). length (codePoints (fst w)) - length (steps (fst w)))")
     (auto simp: addStep_def split: prod.splits)

declare handleSpace_loop.simps [simp del]

definition handleSpace :: "externals \<Rightarrow> int \<Rightarrow> TextInput \<times> Step list \<Rightarrow> TextInput \<times> Step list" where
  "handleSpace u ts w =
     (let w1 = addStep \<lparr>codePoint = codePoints (fst w) ! length (steps (fst w)),
                        timeStamp = ts, typo = True\<rparr> w;
          w2 = handleSpace_loop u ts w1;
          w3 = (if length (steps (fst w2)) < length (codePoints (fst w2)) \<and>
                   isWhitespace u (codePoints (fst w2) ! length (steps (fst w2)))
                then addStep \<lparr>codePoint = codePoints (fst w2) ! length (steps (fst w2)),
                               timeStamp = ts, typo = False\<rparr> w2
                else w2)
      in (fst w3\<lparr>garbage := [], typoFlag := False\<rparr>, snd w3))"

text \<open>
  The two recovery heuristics. Each returns the boolean of the source together with the
  state and the steps handed to the listener. The commit loops read \<^verbatim>\<open>#garbage\<close>, which
  \<^verbatim>\<open>#addStep\<close> does not change, so they are folds over the garbage entries.
\<close>

definition commitGarbage :: "Step \<Rightarrow> TextInput \<times> Step list \<Rightarrow> TextInput \<times> Step list" where
  "commitGarbage g w = addStep \<lparr>codePoint = codePoint g, timeStamp = timeStamp g, typo = False\<rparr> w"

definition handleReplacedCharacter :: "TextInput \<times> Step list \<Rightarrow> bool \<times> TextInput \<times> Step list" where
  "handleReplacedCharacter w =
     (let ti = fst w in
      if length (garbage ti) < recoverBufferLength + 1 \<or>
         length (steps ti) + recoverBufferLength + 1 > length (codePoints ti)
      then (False, w)
      else if \<not> list_all (\<lambda>i. codePoints ti ! (length (steps ti) + i + 1) =
                                codePoint (garbage ti ! (i + 1))) [0..<recoverBufferLength]
      then (False, w)
      else
        let w1 = addStep \<lparr>codePoint = codePoints ti ! length (steps ti),
                          timeStamp = timeStamp (garbage ti ! 0), typo = True\<rparr> w;
            w2 = fold commitGarbage (drop 1 (garbage ti)) w1
        in (True, fst w2\<lparr>garbage := [], typoFlag := False\<rparr>, snd w2))"

definition handleSkippedCharacter :: "TextInput \<times> Step list \<Rightarrow> bool \<times> TextInput \<times> Step list" where
  "handleSkippedCharacter w =
     (let ti = fst w in
      if length (garbage ti) < recoverBufferLength \<or>
         length (steps ti) + recoverBufferLength + 1 > length (codePoints ti)
      then (False, w)
      else if \<not> list_all (\<lambda>i. codePoints ti ! (length (steps ti) + i + 1) =
                                codePoint (garbage ti ! i)) [0..<recoverBufferLength]
      then (False, w)
      else
        let w1 = addStep \<lparr>codePoint = codePoints ti ! length (steps ti),
                          timeStamp = timeStamp (garbage ti ! 0), typo = True\<rparr> w;
            w2 = fold commitGarbage (garbage ti) w1
        in (True, fst w2\<lparr>garbage := [], typoFlag := False\<rparr>, snd w2))"

text \<open>
  The guards of \<^verbatim>\<open>step\<close>, named after the comments of the source. \<open>cp\<close> is the input
  after \<^verbatim>\<open>normalizeWhitespace\<close>. The reads \<^verbatim>\<open>codePoints[steps.length]\<close> are in range
  whenever the machine is not completed and at most as many steps are committed as the
  text has code points, which holds in every state the constructor, \<^verbatim>\<open>step\<close> and
  \<^verbatim>\<open>reset\<close> can produce (\<open>machine_inv\<close> and lemma \<open>reachable_inv\<close> below).
\<close>

definition atBeginningOfText :: "TextInput \<Rightarrow> int \<Rightarrow> bool" where
  "atBeginningOfText ti cp \<longleftrightarrow>
     length (steps ti) = 0 \<and> length (garbage ti) = 0 \<and> \<not> typoFlag ti \<and> cp = 0x0020"

definition spaceKey :: "externals \<Rightarrow> TextInput \<Rightarrow> int \<Rightarrow> bool" where
  "spaceKey u ti cp \<longleftrightarrow>
     cp = 0x0020 \<and> \<not> isWhitespace u (codePoints ti ! length (steps ti))"

definition atBeginningOfWord :: "externals \<Rightarrow> TextInput \<Rightarrow> bool" where
  "atBeginningOfWord u ti \<longleftrightarrow>
     length (garbage ti) = 0 \<and>
     (length (steps ti) = 0 \<or> isWhitespace u (codePoints ti ! (length (steps ti) - 1)))"

definition correctInput :: "externals \<Rightarrow> TextInput \<Rightarrow> int \<Rightarrow> bool" where
  "correctInput u ti cp \<longleftrightarrow>
     normalize' u (codePoints ti ! length (steps ti)) = cp \<and>
     (forgiveErrors ti \<or> length (garbage ti) = 0)"

text \<open>The state in which the recovery heuristics run: lines 125 to 134 of the source.\<close>

definition bufferGarbage :: "TextInput \<Rightarrow> int \<Rightarrow> int \<Rightarrow> TextInput" where
  "bufferGarbage ti cp ts =
     (let ti1 = ti\<lparr>typoFlag := True\<rparr> in
      if \<not> stopOnError ti1 \<or> forgiveErrors ti1 then
        (if length (garbage ti1) < garbageBufferLength
         then ti1\<lparr>garbage := garbage ti1 @ [\<lparr>codePoint = cp, timeStamp = ts, typo = False\<rparr>]\<rparr>
         else ti1)
      else ti1)"

text \<open>The block "Handle incorrect input" of \<^verbatim>\<open>step\<close>, lines 124 to 141.\<close>

definition incorrectInput :: "TextInput \<Rightarrow> int \<Rightarrow> int \<Rightarrow> Feedback \<times> TextInput \<times> Step list" where
  "incorrectInput ti cp ts =
     (let ti1 = bufferGarbage ti cp ts in
      if forgiveErrors ti1 then
        (case handleReplacedCharacter (ti1, []) of
           (True, w) \<Rightarrow> (Recovered, w)
         | (False, w) \<Rightarrow>
             (case handleSkippedCharacter w of
                (True, w') \<Rightarrow> (Recovered, w')
              | (False, w') \<Rightarrow> (Failed, w')))
      else (Failed, ti1, []))"

text \<open>
  \<^verbatim>\<open>step\<close> returns the error of \<^verbatim>\<open>throw new Error()\<close>, or the feedback, the new state
  and the steps it handed to the listener, in commit order.
\<close>

definition step :: "externals \<Rightarrow> TextInput \<Rightarrow> int \<Rightarrow> int \<Rightarrow> error + Feedback \<times> TextInput \<times> Step list" where
  "step u ti codePoint0 ts =
     (if completed ti then Inl Error
      else
        let cp = normalizeWhitespace u codePoint0 in
        if atBeginningOfText ti cp then Inr (Succeeded, ti, [])
        else if cp = 0x0008 then
          (if length (garbage ti) > 0
           then Inr (Succeeded, ti\<lparr>garbage := butlast (garbage ti)\<rparr>, [])
           else Inr (Failed, ti, []))
        else if spaceKey u ti cp \<and> atBeginningOfWord u ti then Inr (Succeeded, ti, [])
        else if spaceKey u ti cp \<and> spaceSkipsWords ti then
          Inr (Recovered, handleSpace u ts (ti, []))
        else if correctInput u ti cp then
          (let t = typoFlag ti;
               w = addStep \<lparr>codePoint = cp, timeStamp = ts, typo = t\<rparr> (ti, [])
           in Inr (if t then Recovered else Succeeded,
                   fst w\<lparr>garbage := [], typoFlag := False\<rparr>, snd w))
        else Inr (incorrectInput ti cp ts))"

text \<open>
  A caller feeding a recorded trace: one call of \<^verbatim>\<open>step\<close> per input. A call that throws
  has changed nothing (the check is the first statement of \<^verbatim>\<open>step\<close>), so the trace goes
  on from the same state and the outcome of the call is recorded as the error.
\<close>

fun run :: "externals \<Rightarrow> TextInput \<Rightarrow> (int \<times> int) list \<Rightarrow> (error + Feedback) list \<times> TextInput \<times> Step list" where
  "run u ti [] = ([], ti, [])"
| "run u ti ((cp, ts) # ins) =
     (case step u ti cp ts of
        Inl e \<Rightarrow> (case run u ti ins of (fbs, ti', out) \<Rightarrow> (Inl e # fbs, ti', out))
      | Inr (fb, ti1, out1) \<Rightarrow>
          (case run u ti1 ins of (fbs, ti', out) \<Rightarrow> (Inr fb # fbs, ti', out1 @ out)))"

text \<open>A garbage entry as the recovery heuristics commit it: its own code point and time stamp, not a typo.\<close>

definition asNonTypo :: "Step \<Rightarrow> Step" where
  "asNonTypo g = \<lparr>codePoint = codePoint g, timeStamp = timeStamp g, typo = False\<rparr>"

text \<open>
  A concrete choice of the imported helpers, to evaluate the model on examples: U+0020 is
  the only whitespace and nothing is normalized.
\<close>

definition plain :: externals where
  "plain = \<lparr>isWhitespace = (\<lambda>c. c = 0x0020), normalize' = (\<lambda>c. c),
            normalizeWhitespace = (\<lambda>c. c), toCodePoints = map (\<lambda>c. int (of_char c))\<rparr>"

text \<open>
  The steps a word-skip commits, in the words of the specification: the character at the
  cursor and the non-whitespace characters after it as typos, then the whitespace character
  that follows, if there is one, as a non-typo; all at the time stamp of the space.
\<close>

definition wordSkipSteps :: "externals \<Rightarrow> TextInput \<Rightarrow> int \<Rightarrow> Step list" where
  "wordSkipSteps u ti ts =
     (let n = length (steps ti);
          rest = drop (Suc n) (codePoints ti)
      in \<lparr>codePoint = codePoints ti ! n, timeStamp = ts, typo = True\<rparr> #
         map (\<lambda>c. \<lparr>codePoint = c, timeStamp = ts, typo = True\<rparr>)
           (takeWhile (\<lambda>c. \<not> isWhitespace u c) rest) @
         (case dropWhile (\<lambda>c. \<not> isWhitespace u c) rest of
            [] \<Rightarrow> []
          | c # _ \<Rightarrow> [\<lparr>codePoint = c, timeStamp = ts, typo = False\<rparr>]))"

text \<open>
  The input reaches the block "Handle incorrect input" of \<^verbatim>\<open>step\<close>: none of the blocks
  before it returns. \<open>cp\<close> is the input after \<^verbatim>\<open>normalizeWhitespace\<close>.
\<close>

definition mismatch :: "externals \<Rightarrow> TextInput \<Rightarrow> int \<Rightarrow> bool" where
  "mismatch u ti cp \<longleftrightarrow>
     \<not> atBeginningOfText ti cp \<and> cp \<noteq> 0x0008 \<and>
     \<not> (spaceKey u ti cp \<and> (atBeginningOfWord u ti \<or> spaceSkipsWords ti)) \<and>
     \<not> correctInput u ti cp"

text \<open>
  The calls a client can make on a machine, and the state after a sequence of them. A call
  of \<^verbatim>\<open>step\<close> that throws leaves the state as it was.
\<close>

datatype call = StepCall int int | ResetCall

fun calls :: "externals \<Rightarrow> TextInput \<Rightarrow> call list \<Rightarrow> TextInput" where
  "calls u ti [] = ti"
| "calls u ti (StepCall cp ts # cs) =
     (case step u ti cp ts of
        Inl e \<Rightarrow> calls u ti cs
      | Inr (fb, ti', out) \<Rightarrow> calls u ti' cs)"
| "calls u ti (ResetCall # cs) = calls u (reset ti) cs"

text \<open>
  An invariant of the machine: the cursor is within the text, the garbage buffer is within
  its capacity and, with \<open>forgiveErrors\<close>, no recovery heuristic applies to the state
  between two calls (it would have fired in the call that buffered the last garbage entry).
\<close>

definition machine_inv :: "TextInput \<Rightarrow> bool" where
  "machine_inv ti \<longleftrightarrow>
     length (steps ti) \<le> length (codePoints ti) \<and>
     length (garbage ti) \<le> garbageBufferLength \<and>
     (forgiveErrors ti \<longrightarrow>
        \<not> fst (handleReplacedCharacter (ti, [])) \<and> \<not> fst (handleSkippedCharacter (ti, [])))"

section \<open>The rendering projection (getChars) and its character cache\<close>

unbundle bit_operations_syntax

text \<open>
  \<^verbatim>\<open>charCache\<close> is a module-level \<^verbatim>\<open>Map<number, Char>\<close>; \<^verbatim>\<open>toChar\<close> reads and extends it,
  so the functions of the projection take the cache and return it. The key is computed
  with the 32-bit operators of JavaScript: the result of \<^verbatim>\<open>&\<close>, \<^verbatim>\<open><<\<close> and \<^verbatim>\<open>|\<close> is a
  signed 32-bit integer (\<open>toInt32\<close>).
\<close>

type_synonym charCache = "int \<rightharpoonup> CharT"

definition toInt32 :: "int \<Rightarrow> int" where
  "toInt32 x = (let m = x mod 2 ^ 32 in if m < 2 ^ 31 then m else m - 2 ^ 32)"

definition charKey :: "int \<Rightarrow> int \<Rightarrow> int" where
  "charKey cp a = toInt32 ((cp AND 0x00FFFFFF) OR push_bit 24 (a AND 0x000000FF))"

definition toChar :: "int \<Rightarrow> int \<Rightarrow> charCache \<Rightarrow> CharT \<times> charCache" where
  "toChar cp a cache =
     (let key = charKey cp a in
      case cache key of
        None \<Rightarrow> (let ch = \<lparr>char_codePoint = cp, attrs = a\<rparr> in (ch, cache(key \<mapsto> ch)))
      | Some ch \<Rightarrow> (ch, cache))"

text \<open>\<^verbatim>\<open>chars.push(toChar(cp, a))\<close>, on the pair of the array and the cache.\<close>

definition pushChar :: "int \<Rightarrow> int \<Rightarrow> CharT list \<times> charCache \<Rightarrow> CharT list \<times> charCache" where
  "pushChar cp a r =
     (case r of (chars, cache) \<Rightarrow>
        (case toChar cp a cache of (ch, cache') \<Rightarrow> (chars @ [ch], cache')))"

text \<open>The inner loop over \<^verbatim>\<open>#garbage\<close> and the loop over the positions of the text.\<close>

fun pushGarbage :: "attr_consts \<Rightarrow> Step list \<Rightarrow> CharT list \<times> charCache \<Rightarrow> CharT list \<times> charCache" where
  "pushGarbage A [] r = r"
| "pushGarbage A (g # gs) r = pushGarbage A gs (pushChar (codePoint g) (attrGarbage A) r)"

function getChars_loop :: "attr_consts \<Rightarrow> TextInput \<Rightarrow> nat \<Rightarrow> CharT list \<times> charCache \<Rightarrow> CharT list \<times> charCache" where
  "getChars_loop A ti i r =
     (if i < length (codePoints ti) then
        (let cp = codePoints ti ! i in
         if i < length (steps ti) then
           (let st = steps ti ! i in
            getChars_loop A ti (i + 1) (pushChar cp (if typo st then attrMiss A else attrHit A) r))
         else if i = length (steps ti) then
           (let r1 = (if \<not> stopOnError ti then pushGarbage A (garbage ti) r else r) in
            getChars_loop A ti (i + 1) (pushChar cp (attrCursor A) r1))
         else getChars_loop A ti (i + 1) (pushChar cp (attrNormal A) r))
      else r)"
  by pat_completeness auto
termination
  by (relation "measure (\<lambda>(A, ti, i, r). length (codePoints ti) - i)") auto

declare getChars_loop.simps [simp del]

definition getChars :: "attr_consts \<Rightarrow> TextInput \<Rightarrow> charCache \<Rightarrow> CharT list \<times> charCache" where
  "getChars A ti cache = getChars_loop A ti 0 ([], cache)"

text \<open>
  The calls of \<^verbatim>\<open>toChar\<close> that one round of the loop of \<^verbatim>\<open>getChars\<close> makes, in order,
  and a sequence of such calls run against the cache.
\<close>

definition charRequestsAt :: "attr_consts \<Rightarrow> TextInput \<Rightarrow> nat \<Rightarrow> (int \<times> int) list" where
  "charRequestsAt A ti i =
     (if i < length (steps ti) then
        [(codePoints ti ! i, if typo (steps ti ! i) then attrMiss A else attrHit A)]
      else if i = length (steps ti) then
        (if \<not> stopOnError ti then map (\<lambda>g. (codePoint g, attrGarbage A)) (garbage ti) else []) @
        [(codePoints ti ! i, attrCursor A)]
      else [(codePoints ti ! i, attrNormal A)])"

definition toChars :: "(int \<times> int) list \<Rightarrow> CharT list \<times> charCache \<Rightarrow> CharT list \<times> charCache" where
  "toChars rs r = fold (\<lambda>(cp, a). pushChar cp a) rs r"

text \<open>
  A cache as calls of \<^verbatim>\<open>toChar\<close> on code points below \<open>2^24\<close> and attributes below
  \<open>2^8\<close> leave it: every entry sits under its own key. The empty cache of a fresh module
  is one.
\<close>

definition cache_ok :: "charCache \<Rightarrow> bool" where
  "cache_ok cache \<longleftrightarrow>
     (\<forall>k ch. cache k = Some ch \<longrightarrow>
        k = charKey (char_codePoint ch) (attrs ch) \<and>
        0 \<le> char_codePoint ch \<and> char_codePoint ch < 2 ^ 24 \<and>
        0 \<le> attrs ch \<and> attrs ch < 2 ^ 8)"

text \<open>
  Code points and attribute constants that fit the 24 and 8 bits the key gives them.
  Every Unicode code point (at most \<open>0x10FFFF\<close>) does.
\<close>

definition validCodePoint :: "int \<Rightarrow> bool" where
  "validCodePoint cp \<longleftrightarrow> 0 \<le> cp \<and> cp < 2 ^ 24"

definition validAttr :: "int \<Rightarrow> bool" where
  "validAttr a \<longleftrightarrow> 0 \<le> a \<and> a < 2 ^ 8"

definition validAttrs :: "attr_consts \<Rightarrow> bool" where
  "validAttrs A \<longleftrightarrow>
     validAttr (attrNormal A) \<and> validAttr (attrHit A) \<and> validAttr (attrMiss A) \<and>
     validAttr (attrGarbage A) \<and> validAttr (attrCursor A)"

section \<open>The histogram (class Histogram)\<close>

text \<open>
  \<^verbatim>\<open>Histogram.from\<close> computes with the time stamps: it subtracts, adds and divides
  JavaScript numbers, which are IEEE 754 doubles. A number is a finite double, held as the
  real it denotes, an infinity, or NaN. The two zeros are one value, as \<^verbatim>\<open>===\<close> has it.
\<close>

datatype number = Finite real | PosInfinity | NegInfinity | NaN

text \<open>
  \<open>roundToDouble\<close> is the rounding of every arithmetic operation: to the nearest double,
  a tie to the one with the even significand. Doubles have 53 significant bits, so those
  next to \<open>x\<close> are the multiples of \<open>2^k\<close> with \<open>k = \<lfloor>log\<^sub>2 \<bar>x\<bar>\<rfloor> - 52\<close>, and of
  \<open>2^-1074\<close> for the smallest; a result of \<open>2^1024\<close> or more is an infinity.
  \<open>doubleExponent a\<close> is \<open>\<lfloor>log\<^sub>2 a\<rfloor>\<close>, computed from bit lengths (lemma
  \<open>doubleExponent_bounds\<close>), and \<open>1024 < bitlen \<lfloor>r\<rfloor>\<close> says \<open>2^1024 \<le> r\<close> (lemma
  \<open>overflow_test\<close>).
\<close>

definition pow2 :: "int \<Rightarrow> real" where
  "pow2 k = (if 0 \<le> k then 2 ^ nat k else 1 / 2 ^ nat (- k))"

definition roundHalfEven :: "real \<Rightarrow> int" where
  "roundHalfEven q =
     (let f = \<lfloor>q\<rfloor>; d = q - of_int f in
      if d < 1 / 2 then f else if 1 / 2 < d then f + 1 else if even f then f else f + 1)"

definition doubleExponent :: "real \<Rightarrow> int" where
  "doubleExponent a =
     (if 1 \<le> a then bitlen \<lfloor>a\<rfloor> - 1 else - bitlen (\<lceil>1 / a\<rceil> - 1))"

definition roundToDouble :: "real \<Rightarrow> number" where
  "roundToDouble x =
     (let a = \<bar>x\<bar>;
          k = max (doubleExponent a - 52) (- 1074);
          m = roundHalfEven (a / pow2 k);
          r = of_int m * pow2 k
      in if 1024 < bitlen \<lfloor>r\<rfloor> then (if 0 < x then PosInfinity else NegInfinity)
         else Finite (if 0 \<le> x then r else - r))"

text \<open>
  A time stamp of a step as the number the source holds: integers up to \<open>2^53\<close> in
  absolute value are doubles themselves (lemma \<open>roundToDouble_of_int\<close>).
\<close>

definition toNumber :: "int \<Rightarrow> number" where
  "toNumber n = roundToDouble (of_int n)"

text \<open>
  The operators \<^verbatim>\<open>+\<close>, \<^verbatim>\<open>-\<close> and \<^verbatim>\<open>/\<close> on numbers, and \<^verbatim>\<open>Math.round\<close>, which rounds a
  finite number to the nearest integer, a half towards \<open>+\<infinity>\<close>, without a rounding error
  of its own. The divisor is \<open>hitCount\<close>, a count of array elements and so an exact
  integer.
\<close>

fun num_add :: "number \<Rightarrow> number \<Rightarrow> number" where
  "num_add (Finite a) (Finite b) = roundToDouble (a + b)"
| "num_add NaN y = NaN"
| "num_add x NaN = NaN"
| "num_add PosInfinity NegInfinity = NaN"
| "num_add NegInfinity PosInfinity = NaN"
| "num_add PosInfinity y = PosInfinity"
| "num_add x PosInfinity = PosInfinity"
| "num_add NegInfinity y = NegInfinity"
| "num_add x NegInfinity = NegInfinity"

fun num_sub :: "number \<Rightarrow> number \<Rightarrow> number" where
  "num_sub (Finite a) (Finite b) = roundToDouble (a - b)"
| "num_sub NaN y = NaN"
| "num_sub x NaN = NaN"
| "num_sub PosInfinity PosInfinity = NaN"
| "num_sub NegInfinity NegInfinity = NaN"
| "num_sub PosInfinity y = PosInfinity"
| "num_sub x PosInfinity = NegInfinity"
| "num_sub NegInfinity y = NegInfinity"
| "num_sub x NegInfinity = PosInfinity"

fun num_div :: "number \<Rightarrow> nat \<Rightarrow> number" where
  "num_div (Finite a) n =
     (if n = 0 then (if 0 < a then PosInfinity else if a < 0 then NegInfinity else NaN)
      else roundToDouble (a / real n))"
| "num_div x n = x"

fun mathRound :: "number \<Rightarrow> number" where
  "mathRound (Finite x) = Finite (of_int \<lfloor>x + 1 / 2\<rfloor>)"
| "mathRound x = x"

text \<open>
  The accumulator objects of \<^verbatim>\<open>Histogram.from\<close> have the fields \<open>hitCount\<close>,
  \<open>missCount\<close> and \<open>timeToType\<close>; a \<^verbatim>\<open>Sample\<close> has these and the code point. The two
  \<^verbatim>\<open>Map\<close>s keep insertion order and are association lists: \<open>AList.update\<close> replaces
  the value of a key in place and appends a new key at the end, as \<^verbatim>\<open>Map.set\<close> does.
\<close>

record counters =
  hitCount :: nat
  missCount :: nat
  timeToType :: number

record Sample = counters +
  sample_codePoint :: int

text \<open>The loop of \<^verbatim>\<open>Histogram.from\<close> over the steps; \<open>last'\<close> is the variable \<^verbatim>\<open>last\<close>.\<close>

fun from_loop :: "Step list \<Rightarrow> (int \<times> counters) list \<Rightarrow> Step option \<Rightarrow> (int \<times> counters) list" where
  "from_loop [] samples last' = samples"
| "from_loop (st # rest) samples last' =
     (let sample0 = (case map_of samples (codePoint st) of
                       None \<Rightarrow> \<lparr>hitCount = 0, missCount = 0, timeToType = Finite 0\<rparr>
                     | Some s \<Rightarrow> s);
          sample1 = sample0\<lparr>hitCount := hitCount sample0 + 1\<rparr>;
          sample2 = (if typo st then sample1\<lparr>missCount := missCount sample1 + 1\<rparr>
                     else (case last' of
                             Some l \<Rightarrow>
                               sample1\<lparr>timeToType :=
                                 num_add (timeToType sample1)
                                   (num_sub (toNumber (timeStamp st)) (toNumber (timeStamp l)))\<rparr>
                           | None \<Rightarrow> sample1))
      in from_loop rest (AList.update (codePoint st) sample2 samples) (Some st))"

text \<open>
  The constructor sorts the samples by code point (\<^verbatim>\<open>Array.prototype.sort\<close> is stable, as
  \<open>sort_key\<close> is) and fills the \<^verbatim>\<open>Map\<close> in that order; \<^verbatim>\<open>get\<close> looks a code point up.
\<close>

definition Histogram_new :: "Sample list \<Rightarrow> (int \<times> Sample) list" where
  "Histogram_new samples =
     fold (\<lambda>sample data. AList.update (sample_codePoint sample) sample data)
       (sort_key sample_codePoint samples) []"

definition Histogram_get :: "(int \<times> Sample) list \<Rightarrow> int \<Rightarrow> Sample option" where
  "Histogram_get data cp = map_of data cp"

definition Histogram_from :: "Step list \<Rightarrow> int option \<Rightarrow> (int \<times> Sample) list" where
  "Histogram_from sts startedAt =
     (let last' = (case startedAt of
                    Some t \<Rightarrow> Some \<lparr>codePoint = 0, timeStamp = t, typo = False\<rparr>
                  | None \<Rightarrow> None);
          samples = from_loop sts [] last'
      in Histogram_new
           (map (\<lambda>(cp, s). \<lparr>hitCount = hitCount s, missCount = missCount s,
                             timeToType = mathRound (num_div (timeToType s) (hitCount s)),
                             sample_codePoint = cp\<rparr>) samples))"

text \<open>
  In the words of the specification: the non-typo steps with code point \<open>c\<close> that have a
  step immediately before them (or \<open>startedAt\<close>, for the first step), each as its time
  stamp and the time stamp before it; their latencies; and the rounded mean of the
  latencies, in exact arithmetic.
\<close>

fun nonTypoStamps :: "int option \<Rightarrow> Step list \<Rightarrow> int \<Rightarrow> (int \<times> int) list" where
  "nonTypoStamps prev [] c = []"
| "nonTypoStamps prev (st # rest) c =
     (case prev of
        Some t \<Rightarrow> (if codePoint st = c \<and> \<not> typo st then [(timeStamp st, t)] else [])
      | None \<Rightarrow> []) @
     nonTypoStamps (Some (timeStamp st)) rest c"

definition nonTypoLatencies :: "int option \<Rightarrow> Step list \<Rightarrow> int \<Rightarrow> int list" where
  "nonTypoLatencies prev sts c = map (\<lambda>(t, p). t - p) (nonTypoStamps prev sts c)"

definition meanLatency :: "int option \<Rightarrow> Step list \<Rightarrow> int \<Rightarrow> int" where
  "meanLatency startedAt sts c =
     \<lfloor>real_of_int (sum_list (nonTypoLatencies startedAt sts c)) /
        real (length (nonTypoLatencies startedAt sts c)) + 1 / 2\<rfloor>"

text \<open>
  The latency of such a pair as the source computes it, and the counters of code point
  \<open>c\<close> after the loop has run over \<open>sts\<close> from the counters \<open>a\<close>.
\<close>

definition doubleLatency :: "int \<times> int \<Rightarrow> number" where
  "doubleLatency d = num_sub (toNumber (fst d)) (toNumber (snd d))"

definition tally :: "int \<Rightarrow> int option \<Rightarrow> Step list \<Rightarrow> counters \<Rightarrow> counters" where
  "tally c prev sts a =
     \<lparr>hitCount = hitCount a + length (filter (\<lambda>s. codePoint s = c) sts),
      missCount = missCount a + length (filter (\<lambda>s. codePoint s = c \<and> typo s) sts),
      timeToType = foldl num_add (timeToType a) (map doubleLatency (nonTypoStamps prev sts c))\<rparr>"

section \<open>Properties of the recovery heuristics\<close>

text \<open>
  The theorems below are stated for every value of the state record. The states of a
  machine are those the constructor, \<^verbatim>\<open>step\<close> and \<^verbatim>\<open>reset\<close> produce; they satisfy
  \<open>machine_inv\<close> (lemma \<open>reachable_inv\<close>), so in them every read of \<^verbatim>\<open>codePoints\<close> that
  \<^verbatim>\<open>step\<close> makes is within the text.
\<close>

lemma addStep_pair: "addStep st (ti, out) = (ti\<lparr>steps := steps ti @ [st]\<rparr>, out @ [st])"
  by (simp add: addStep_def)

lemma fold_commitGarbage:
  "fold commitGarbage gs (ti, out) =
     (ti\<lparr>steps := steps ti @ map asNonTypo gs\<rparr>, out @ map asNonTypo gs)"
  by (induction gs arbitrary: ti out) (simp_all add: commitGarbage_def addStep_pair asNonTypo_def)

lemma all_below_3: "list_all P [0..<3] \<longleftrightarrow> (\<forall>i<3. P i)"
  by (auto simp: list_all_iff)

text \<open>
  Claim C1. On every state, replaced-character recovery succeeds exactly when the garbage
  buffer holds at least 4 entries, the text has at least 4 code points from the cursor on,
  and the garbage entries 1, 2, 3 equal the code points of the text at cursor + 1, + 2, + 3.
  On success it commits the code point at the cursor as a typo with the time stamp of
  garbage entry 0, then every garbage entry from index 1 on (also those past index 3) as a
  non-typo with its own time stamp, hands the same steps to the listener, and clears the
  garbage buffer and the typo flag. Otherwise it changes nothing and commits nothing.
\<close>

theorem replaced_character_recovery:
  "handleReplacedCharacter (ti, out) =
     (if 4 \<le> length (garbage ti) \<and> length (steps ti) + 4 \<le> length (codePoints ti) \<and>
         (\<forall>i<3. codePoint (garbage ti ! (i + 1)) = codePoints ti ! (length (steps ti) + i + 1))
      then (True,
            ti\<lparr>steps := steps ti @
                  \<lparr>codePoint = codePoints ti ! length (steps ti),
                   timeStamp = timeStamp (garbage ti ! 0), typo = True\<rparr> #
                  map asNonTypo (tl (garbage ti)),
                garbage := [], typoFlag := False\<rparr>,
            out @ \<lparr>codePoint = codePoints ti ! length (steps ti),
                   timeStamp = timeStamp (garbage ti ! 0), typo = True\<rparr> #
                  map asNonTypo (tl (garbage ti)))
      else (False, ti, out))"
  unfolding handleReplacedCharacter_def recoverBufferLength_def
  by (auto simp: Let_def all_below_3 addStep_pair fold_commitGarbage drop_Suc)

theorem replaced_character_recovery_witness:
  "handleReplacedCharacter
     (\<lparr>text' = ''abcd'', codePoints = [97, 98, 99, 100], stopOnError = False,
       forgiveErrors = True, spaceSkipsWords = False, steps = [],
       garbage = [\<lparr>codePoint = 120, timeStamp = 1, typo = False\<rparr>,
                  \<lparr>codePoint = 98, timeStamp = 2, typo = False\<rparr>,
                  \<lparr>codePoint = 99, timeStamp = 3, typo = False\<rparr>,
                  \<lparr>codePoint = 100, timeStamp = 4, typo = False\<rparr>],
       typoFlag = True\<rparr>, []) =
   (True,
    \<lparr>text' = ''abcd'', codePoints = [97, 98, 99, 100], stopOnError = False,
      forgiveErrors = True, spaceSkipsWords = False,
      steps = [\<lparr>codePoint = 97, timeStamp = 1, typo = True\<rparr>,
               \<lparr>codePoint = 98, timeStamp = 2, typo = False\<rparr>,
               \<lparr>codePoint = 99, timeStamp = 3, typo = False\<rparr>,
               \<lparr>codePoint = 100, timeStamp = 4, typo = False\<rparr>],
      garbage = [], typoFlag = False\<rparr>,
    [\<lparr>codePoint = 97, timeStamp = 1, typo = True\<rparr>,
     \<lparr>codePoint = 98, timeStamp = 2, typo = False\<rparr>,
     \<lparr>codePoint = 99, timeStamp = 3, typo = False\<rparr>,
     \<lparr>codePoint = 100, timeStamp = 4, typo = False\<rparr>])"
  using replaced_character_recovery
    [of "\<lparr>text' = ''abcd'', codePoints = [97, 98, 99, 100], stopOnError = False,
       forgiveErrors = True, spaceSkipsWords = False, steps = [],
       garbage = [\<lparr>codePoint = 120, timeStamp = 1, typo = False\<rparr>,
                  \<lparr>codePoint = 98, timeStamp = 2, typo = False\<rparr>,
                  \<lparr>codePoint = 99, timeStamp = 3, typo = False\<rparr>,
                  \<lparr>codePoint = 100, timeStamp = 4, typo = False\<rparr>],
       typoFlag = True\<rparr>" "[]"]
  by (simp add: asNonTypo_def less_Suc_eq numeral_3_eq_3)

lemma handleReplacedCharacter_False:
  "fst (handleReplacedCharacter w) = False \<Longrightarrow> handleReplacedCharacter w = (False, w)"
  unfolding handleReplacedCharacter_def by (auto simp: Let_def split: if_splits)

lemma handleSkippedCharacter_False:
  "fst (handleSkippedCharacter w) = False \<Longrightarrow> handleSkippedCharacter w = (False, w)"
  unfolding handleSkippedCharacter_def by (auto simp: Let_def split: if_splits)

lemma incorrectInput_order:
  "forgiveErrors ti \<Longrightarrow>
   incorrectInput ti cp ts =
     (let w = (bufferGarbage ti cp ts, []) in
      if fst (handleReplacedCharacter w) then (Recovered, snd (handleReplacedCharacter w))
      else if fst (handleSkippedCharacter w) then (Recovered, snd (handleSkippedCharacter w))
      else (Failed, w))"
proof -
  assume fe: "forgiveErrors ti"
  then have fe1: "forgiveErrors (bufferGarbage ti cp ts)"
    by (simp add: bufferGarbage_def Let_def)
  show ?thesis
  proof (cases "fst (handleReplacedCharacter (bufferGarbage ti cp ts, []))")
    case True
    then show ?thesis using fe1
      by (auto simp: incorrectInput_def Let_def split: prod.splits bool.splits)
  next
    case False
    then have r: "handleReplacedCharacter (bufferGarbage ti cp ts, []) = (False, bufferGarbage ti cp ts, [])"
      using handleReplacedCharacter_False by simp
    show ?thesis
    proof (cases "fst (handleSkippedCharacter (bufferGarbage ti cp ts, []))")
      case True
      then show ?thesis using fe1 r
        by (auto simp: incorrectInput_def Let_def split: prod.splits bool.splits)
    next
      case False
      then have "handleSkippedCharacter (bufferGarbage ti cp ts, []) = (False, bufferGarbage ti cp ts, [])"
        using handleSkippedCharacter_False by simp
      then show ?thesis using fe1 r
        by (simp add: incorrectInput_def Let_def)
    qed
  qed
qed

text \<open>
  Claim C2. On every state, skipped-character recovery succeeds exactly when the garbage
  buffer holds at least 3 entries, the text has at least 4 code points from the cursor on,
  and the garbage entries 0, 1, 2 equal the code points of the text at cursor + 1, + 2, + 3.
  On success it commits the code point at the cursor as a typo with the time stamp of
  garbage entry 0 (no interpolation), then every garbage entry as a non-typo with its own
  time stamp, and clears the garbage buffer and the typo flag. In the mismatch path with
  \<open>forgiveErrors\<close>, replaced-character recovery runs first on the state with the new
  garbage entry; skipped-character recovery runs only when that has failed, on the same
  state.
\<close>

theorem skipped_character_recovery:
  "handleSkippedCharacter (ti, out) =
     (if 3 \<le> length (garbage ti) \<and> length (steps ti) + 4 \<le> length (codePoints ti) \<and>
         (\<forall>i<3. codePoint (garbage ti ! i) = codePoints ti ! (length (steps ti) + i + 1))
      then (True,
            ti\<lparr>steps := steps ti @
                  \<lparr>codePoint = codePoints ti ! length (steps ti),
                   timeStamp = timeStamp (garbage ti ! 0), typo = True\<rparr> #
                  map asNonTypo (garbage ti),
                garbage := [], typoFlag := False\<rparr>,
            out @ \<lparr>codePoint = codePoints ti ! length (steps ti),
                   timeStamp = timeStamp (garbage ti ! 0), typo = True\<rparr> #
                  map asNonTypo (garbage ti))
      else (False, ti, out))
   \<and> (forgiveErrors ti \<longrightarrow>
        incorrectInput ti cp ts =
          (let w = (bufferGarbage ti cp ts, []) in
           if fst (handleReplacedCharacter w) then (Recovered, snd (handleReplacedCharacter w))
           else if fst (handleSkippedCharacter w) then (Recovered, snd (handleSkippedCharacter w))
           else (Failed, w)))"
proof (intro conjI impI)
  show "handleSkippedCharacter (ti, out) =
     (if 3 \<le> length (garbage ti) \<and> length (steps ti) + 4 \<le> length (codePoints ti) \<and>
         (\<forall>i<3. codePoint (garbage ti ! i) = codePoints ti ! (length (steps ti) + i + 1))
      then (True,
            ti\<lparr>steps := steps ti @
                  \<lparr>codePoint = codePoints ti ! length (steps ti),
                   timeStamp = timeStamp (garbage ti ! 0), typo = True\<rparr> #
                  map asNonTypo (garbage ti),
                garbage := [], typoFlag := False\<rparr>,
            out @ \<lparr>codePoint = codePoints ti ! length (steps ti),
                   timeStamp = timeStamp (garbage ti ! 0), typo = True\<rparr> #
                  map asNonTypo (garbage ti))
      else (False, ti, out))"
    unfolding handleSkippedCharacter_def recoverBufferLength_def
    by (auto simp: Let_def all_below_3 addStep_pair fold_commitGarbage)
qed (rule incorrectInput_order)

theorem skipped_character_recovery_witness:
  "handleSkippedCharacter
     (\<lparr>text' = ''abcd'', codePoints = [97, 98, 99, 100], stopOnError = False,
       forgiveErrors = True, spaceSkipsWords = False, steps = [],
       garbage = [\<lparr>codePoint = 98, timeStamp = 2, typo = False\<rparr>,
                  \<lparr>codePoint = 99, timeStamp = 3, typo = False\<rparr>,
                  \<lparr>codePoint = 100, timeStamp = 4, typo = False\<rparr>],
       typoFlag = True\<rparr>, []) =
   (True,
    \<lparr>text' = ''abcd'', codePoints = [97, 98, 99, 100], stopOnError = False,
      forgiveErrors = True, spaceSkipsWords = False,
      steps = [\<lparr>codePoint = 97, timeStamp = 2, typo = True\<rparr>,
               \<lparr>codePoint = 98, timeStamp = 2, typo = False\<rparr>,
               \<lparr>codePoint = 99, timeStamp = 3, typo = False\<rparr>,
               \<lparr>codePoint = 100, timeStamp = 4, typo = False\<rparr>],
      garbage = [], typoFlag = False\<rparr>,
    [\<lparr>codePoint = 97, timeStamp = 2, typo = True\<rparr>,
     \<lparr>codePoint = 98, timeStamp = 2, typo = False\<rparr>,
     \<lparr>codePoint = 99, timeStamp = 3, typo = False\<rparr>,
     \<lparr>codePoint = 100, timeStamp = 4, typo = False\<rparr>])
   \<and> incorrectInput
     \<lparr>text' = ''abcd'', codePoints = [97, 98, 99, 100], stopOnError = False,
       forgiveErrors = True, spaceSkipsWords = False, steps = [],
       garbage = [\<lparr>codePoint = 98, timeStamp = 2, typo = False\<rparr>,
                  \<lparr>codePoint = 99, timeStamp = 3, typo = False\<rparr>],
       typoFlag = True\<rparr> 100 4 =
   (Recovered,
    \<lparr>text' = ''abcd'', codePoints = [97, 98, 99, 100], stopOnError = False,
      forgiveErrors = True, spaceSkipsWords = False,
      steps = [\<lparr>codePoint = 97, timeStamp = 2, typo = True\<rparr>,
               \<lparr>codePoint = 98, timeStamp = 2, typo = False\<rparr>,
               \<lparr>codePoint = 99, timeStamp = 3, typo = False\<rparr>,
               \<lparr>codePoint = 100, timeStamp = 4, typo = False\<rparr>],
      garbage = [], typoFlag = False\<rparr>,
    [\<lparr>codePoint = 97, timeStamp = 2, typo = True\<rparr>,
     \<lparr>codePoint = 98, timeStamp = 2, typo = False\<rparr>,
     \<lparr>codePoint = 99, timeStamp = 3, typo = False\<rparr>,
     \<lparr>codePoint = 100, timeStamp = 4, typo = False\<rparr>])"
  using skipped_character_recovery
    [of "\<lparr>text' = ''abcd'', codePoints = [97, 98, 99, 100], stopOnError = False,
       forgiveErrors = True, spaceSkipsWords = False, steps = [],
       garbage = [\<lparr>codePoint = 98, timeStamp = 2, typo = False\<rparr>,
                  \<lparr>codePoint = 99, timeStamp = 3, typo = False\<rparr>,
                  \<lparr>codePoint = 100, timeStamp = 4, typo = False\<rparr>],
       typoFlag = True\<rparr>" "[]" 100 4]
  by (simp add: asNonTypo_def less_Suc_eq numeral_3_eq_3 incorrectInput_def bufferGarbage_def
      handleReplacedCharacter_def handleSkippedCharacter_def recoverBufferLength_def
      garbageBufferLength_def addStep_pair commitGarbage_def Let_def)

section \<open>Word skip\<close>

lemma handleSpace_loop_eq:
  "handleSpace_loop u ts w =
     ((fst w)\<lparr>steps := steps (fst w) @
         map (\<lambda>c. \<lparr>codePoint = c, timeStamp = ts, typo = True\<rparr>)
           (takeWhile (\<lambda>c. \<not> isWhitespace u c) (drop (length (steps (fst w))) (codePoints (fst w))))\<rparr>,
      snd w @
         map (\<lambda>c. \<lparr>codePoint = c, timeStamp = ts, typo = True\<rparr>)
           (takeWhile (\<lambda>c. \<not> isWhitespace u c) (drop (length (steps (fst w))) (codePoints (fst w)))))"
proof (induction u ts w rule: handleSpace_loop.induct)
  case (1 u ts w)
  obtain ti out where w: "w = (ti, out)" by (cases w)
  show ?case
  proof (cases "length (steps ti) < length (codePoints ti) \<and>
         \<not> isWhitespace u (codePoints ti ! length (steps ti))")
    case True
    then have d: "drop (length (steps ti)) (codePoints ti) =
        codePoints ti ! length (steps ti) # drop (Suc (length (steps ti))) (codePoints ti)"
      by (simp add: Cons_nth_drop_Suc)
    from True w have
      "handleSpace_loop u ts w = handleSpace_loop u ts
         (addStep \<lparr>codePoint = codePoints ti ! length (steps ti), timeStamp = ts, typo = True\<rparr> w)"
      by (subst handleSpace_loop.simps) simp
    also have "\<dots> = ((fst w)\<lparr>steps := steps (fst w) @
         map (\<lambda>c. \<lparr>codePoint = c, timeStamp = ts, typo = True\<rparr>)
           (takeWhile (\<lambda>c. \<not> isWhitespace u c) (drop (length (steps (fst w))) (codePoints (fst w))))\<rparr>,
      snd w @
         map (\<lambda>c. \<lparr>codePoint = c, timeStamp = ts, typo = True\<rparr>)
           (takeWhile (\<lambda>c. \<not> isWhitespace u c) (drop (length (steps (fst w))) (codePoints (fst w)))))"
      using "1.IH" True w d by (simp add: addStep_pair)
    finally show ?thesis .
  next
    case False
    then have "handleSpace_loop u ts w = w"
      using w by (subst handleSpace_loop.simps) auto
    moreover have "takeWhile (\<lambda>c. \<not> isWhitespace u c) (drop (length (steps ti)) (codePoints ti)) = []"
    proof (cases "length (steps ti) < length (codePoints ti)")
      case True
      with False show ?thesis by (simp add: Cons_nth_drop_Suc [symmetric])
    next
      case False
      then show ?thesis by simp
    qed
    ultimately show ?thesis using w by simp
  qed
qed

lemma dropWhile_nth_drop:
  "length (takeWhile P xs) < length xs \<Longrightarrow>
   dropWhile P xs = xs ! length (takeWhile P xs) # drop (Suc (length (takeWhile P xs))) xs"
  by (metis Cons_nth_drop_Suc dropWhile_eq_drop)

lemma handleSpace_eq:
  "handleSpace u ts (ti, out) =
     (ti\<lparr>steps := steps ti @ wordSkipSteps u ti ts, garbage := [], typoFlag := False\<rparr>,
      out @ wordSkipSteps u ti ts)"
proof -
  let ?n = "length (steps ti)"
  let ?rest = "drop (Suc ?n) (codePoints ti)"
  let ?word = "takeWhile (\<lambda>c. \<not> isWhitespace u c) ?rest"
  let ?m = "Suc ?n + length ?word"
  have len: "length ?rest = length (codePoints ti) - Suc ?n" by simp
  show ?thesis
  proof (cases "length ?word < length ?rest")
    case True
    then have m: "?m < length (codePoints ti)" by simp
    have dw: "dropWhile (\<lambda>c. \<not> isWhitespace u c) ?rest = ?rest ! length ?word # drop (Suc (length ?word)) ?rest"
      using True by (rule dropWhile_nth_drop)
    have nth: "?rest ! length ?word = codePoints ti ! ?m"
      using m by simp
    have ws: "isWhitespace u (codePoints ti ! ?m)"
      using nth_length_takeWhile [OF True] nth by simp
    show ?thesis
      using m ws dw nth
      by (simp add: handleSpace_def Let_def addStep_pair handleSpace_loop_eq wordSkipSteps_def)
  next
    case False
    then have eq: "length ?word = length ?rest"
      using length_takeWhile_le [of "\<lambda>c. \<not> isWhitespace u c" ?rest] by linarith
    then have "?word = ?rest"
      by (metis takeWhile_eq_take take_all order_refl)
    then have dw: "dropWhile (\<lambda>c. \<not> isWhitespace u c) ?rest = []"
      by (metis append_self_conv takeWhile_dropWhile_id)
    have m: "\<not> ?m < length (codePoints ti)" using eq by simp
    show ?thesis
      using m
      by (simp add: handleSpace_def Let_def addStep_pair handleSpace_loop_eq wordSkipSteps_def dw)
  qed
qed

text \<open>
  Claim C3. When \<open>step\<close> receives a space, the code point expected at the cursor is not
  whitespace, the garbage buffer is not empty or the cursor is not at the start and the
  code point of the text before the cursor is not whitespace, and \<open>spaceSkipsWords\<close> is
  set, then \<open>step\<close> returns \<open>Recovered\<close>, commits the steps of \<open>wordSkipSteps\<close> (the
  code point at the cursor and the following non-whitespace code points as typos, then
  the whitespace code point after them, if any, as a non-typo, all with the time stamp of
  the space) and clears the garbage buffer and the typo flag. For the text "foo bar" with
  the cursor at 0 these are f, o, o as typos and the space as a non-typo, and the cursor
  ends at 4. "The previously committed character" is read as the code point of the text
  before the cursor, which is what the source tests.
\<close>

theorem word_skip:
  assumes "length (steps ti) < length (codePoints ti)"
    and "normalizeWhitespace u cp0 = 0x0020"
    and "\<not> isWhitespace u (codePoints ti ! length (steps ti))"
    and "garbage ti \<noteq> [] \<or>
         (length (steps ti) \<noteq> 0 \<and> \<not> isWhitespace u (codePoints ti ! (length (steps ti) - 1)))"
    and "spaceSkipsWords ti"
  shows "step u ti cp0 ts =
           Inr (Recovered,
                ti\<lparr>steps := steps ti @ wordSkipSteps u ti ts, garbage := [], typoFlag := False\<rparr>,
                wordSkipSteps u ti ts)
         \<and> (codePoints ti = [102, 111, 111, 32, 98, 97, 114] \<and> steps ti = [] \<and>
            \<not> isWhitespace u 111 \<and> isWhitespace u 32 \<longrightarrow>
            wordSkipSteps u ti ts =
              [\<lparr>codePoint = 102, timeStamp = ts, typo = True\<rparr>,
               \<lparr>codePoint = 111, timeStamp = ts, typo = True\<rparr>,
               \<lparr>codePoint = 111, timeStamp = ts, typo = True\<rparr>,
               \<lparr>codePoint = 32, timeStamp = ts, typo = False\<rparr>] \<and>
            length (steps ti @ wordSkipSteps u ti ts) = 4)"
proof (intro conjI impI)
  have nc: "\<not> completed ti" using assms(1) by (simp add: completed_def)
  have nb: "\<not> atBeginningOfText ti 32" using assms(4) by (auto simp: atBeginningOfText_def)
  have sk: "spaceKey u ti 32" using assms(3) by (simp add: spaceKey_def)
  have nw: "\<not> atBeginningOfWord u ti" using assms(4) by (auto simp: atBeginningOfWord_def)
  show "step u ti cp0 ts =
           Inr (Recovered,
                ti\<lparr>steps := steps ti @ wordSkipSteps u ti ts, garbage := [], typoFlag := False\<rparr>,
                wordSkipSteps u ti ts)"
    using nc nb sk nw assms(2,5) handleSpace_eq [of u ts ti "[]"]
    by (simp add: step_def Let_def)
next
  assume ex: "codePoints ti = [102, 111, 111, 32, 98, 97, 114] \<and> steps ti = [] \<and>
            \<not> isWhitespace u 111 \<and> isWhitespace u 32"
  then show "wordSkipSteps u ti ts =
              [\<lparr>codePoint = 102, timeStamp = ts, typo = True\<rparr>,
               \<lparr>codePoint = 111, timeStamp = ts, typo = True\<rparr>,
               \<lparr>codePoint = 111, timeStamp = ts, typo = True\<rparr>,
               \<lparr>codePoint = 32, timeStamp = ts, typo = False\<rparr>]"
    by (simp add: wordSkipSteps_def)
  with ex show "length (steps ti @ wordSkipSteps u ti ts) = 4" by simp
qed

theorem word_skip_witness:
  "step plain
     \<lparr>text' = ''foo bar'', codePoints = [102, 111, 111, 32, 98, 97, 114], stopOnError = False,
       forgiveErrors = False, spaceSkipsWords = True, steps = [],
       garbage = [\<lparr>codePoint = 120, timeStamp = 1, typo = False\<rparr>], typoFlag = True\<rparr> 32 5 =
   Inr (Recovered,
     \<lparr>text' = ''foo bar'', codePoints = [102, 111, 111, 32, 98, 97, 114], stopOnError = False,
       forgiveErrors = False, spaceSkipsWords = True,
       steps = [\<lparr>codePoint = 102, timeStamp = 5, typo = True\<rparr>,
                \<lparr>codePoint = 111, timeStamp = 5, typo = True\<rparr>,
                \<lparr>codePoint = 111, timeStamp = 5, typo = True\<rparr>,
                \<lparr>codePoint = 32, timeStamp = 5, typo = False\<rparr>],
       garbage = [], typoFlag = False\<rparr>,
     [\<lparr>codePoint = 102, timeStamp = 5, typo = True\<rparr>,
      \<lparr>codePoint = 111, timeStamp = 5, typo = True\<rparr>,
      \<lparr>codePoint = 111, timeStamp = 5, typo = True\<rparr>,
      \<lparr>codePoint = 32, timeStamp = 5, typo = False\<rparr>])"
  using word_skip
    [of "\<lparr>text' = ''foo bar'', codePoints = [102, 111, 111, 32, 98, 97, 114], stopOnError = False,
       forgiveErrors = False, spaceSkipsWords = True, steps = [],
       garbage = [\<lparr>codePoint = 120, timeStamp = 1, typo = False\<rparr>], typoFlag = True\<rparr>"
     plain 32 5]
  by (simp add: plain_def)

section \<open>Empty target\<close>

lemma run_completed:
  "completed ti \<Longrightarrow> run u ti ins = (map (\<lambda>_. Inl Error) ins, ti, [])"
  by (induction ins) (auto simp: step_def)

text \<open>
  Claim C10. A machine constructed with the empty text (the decoder \<open>toCodePoints\<close>
  yields no code point for it) is completed from the start and after \<open>reset\<close>; every
  call of \<open>step\<close>, whatever its arguments, throws, and a trace of such calls leaves the
  state as it was and hands no step to the listener.
\<close>

theorem empty_target:
  assumes "toCodePoints u [] = []"
  shows "completed (TextInput_new u [] soe fe ssw) \<and>
         completed (reset (TextInput_new u [] soe fe ssw)) \<and>
         step u (TextInput_new u [] soe fe ssw) cp ts = Inl Error \<and>
         step u (reset (TextInput_new u [] soe fe ssw)) cp ts = Inl Error \<and>
         run u (TextInput_new u [] soe fe ssw) ins =
           (map (\<lambda>_. Inl Error) ins, TextInput_new u [] soe fe ssw, [])"
proof -
  have c: "completed (TextInput_new u [] soe fe ssw)"
    using assms by (simp add: completed_def TextInput_new_def reset_def)
  have r: "reset (TextInput_new u [] soe fe ssw) = TextInput_new u [] soe fe ssw"
    by (simp add: TextInput_new_def reset_def)
  show ?thesis using c r run_completed [OF c] by (simp add: step_def)
qed

theorem empty_target_witness:
  "toCodePoints plain [] = [] \<and>
   completed (TextInput_new plain [] False True True) \<and>
   step plain (TextInput_new plain [] False True True) 8 0 = Inl Error \<and>
   step plain (TextInput_new plain [] False True True) 32 0 = Inl Error \<and>
   run plain (TextInput_new plain [] False True True) [(8, 0), (32, 1), (97, 2)] =
     ([Inl Error, Inl Error, Inl Error], TextInput_new plain [] False True True, [])"
proof -
  have h: "toCodePoints plain [] = []" by (simp add: plain_def)
  show ?thesis
    using h empty_target [OF h, of False True True 8 0 "[(8, 0), (32, 1), (97, 2)]"]
      empty_target [OF h, of False True True 32 0 "[]"]
    by (simp del: run.simps)
qed

section \<open>The outcomes of a call of step\<close>

lemma bufferGarbage_simps [simp]:
  "steps (bufferGarbage ti cp ts) = steps ti"
  "codePoints (bufferGarbage ti cp ts) = codePoints ti"
  "text' (bufferGarbage ti cp ts) = text' ti"
  "stopOnError (bufferGarbage ti cp ts) = stopOnError ti"
  "forgiveErrors (bufferGarbage ti cp ts) = forgiveErrors ti"
  "spaceSkipsWords (bufferGarbage ti cp ts) = spaceSkipsWords ti"
  "typoFlag (bufferGarbage ti cp ts) = True"
  "(bufferGarbage ti cp ts)\<lparr>steps := xs, garbage := [], typoFlag := False\<rparr> =
     ti\<lparr>steps := xs, garbage := [], typoFlag := False\<rparr>"
  by (simp_all add: bufferGarbage_def Let_def)

lemma bufferGarbage_garbage:
  "garbage (bufferGarbage ti cp ts) =
     (if (\<not> stopOnError ti \<or> forgiveErrors ti) \<and> length (garbage ti) < 10
      then garbage ti @ [\<lparr>codePoint = cp, timeStamp = ts, typo = False\<rparr>]
      else garbage ti)"
  by (simp add: bufferGarbage_def Let_def garbageBufferLength_def)

lemma handleReplacedCharacter_True:
  assumes "fst (handleReplacedCharacter (ti, out))"
  shows "\<exists>new. new \<noteq> [] \<and> typo (hd new) \<and> length new = length (garbage ti) \<and>
           handleReplacedCharacter (ti, out) =
             (True, ti\<lparr>steps := steps ti @ new, garbage := [], typoFlag := False\<rparr>, out @ new)"
proof -
  let ?new = "\<lparr>codePoint = codePoints ti ! length (steps ti),
               timeStamp = timeStamp (garbage ti ! 0), typo = True\<rparr> #
              map asNonTypo (drop 1 (garbage ti))"
  have "handleReplacedCharacter (ti, out) =
          (True, ti\<lparr>steps := steps ti @ ?new, garbage := [], typoFlag := False\<rparr>, out @ ?new)"
    using assms unfolding handleReplacedCharacter_def
    by (simp add: Let_def addStep_pair fold_commitGarbage split: if_splits)
  moreover have "length ?new = length (garbage ti)"
    using assms unfolding handleReplacedCharacter_def recoverBufferLength_def
    by (simp add: Let_def split: if_splits)
  ultimately show ?thesis by (intro exI [of _ ?new]) simp
qed

lemma handleSkippedCharacter_True:
  assumes "fst (handleSkippedCharacter (ti, out))"
  shows "\<exists>new. new \<noteq> [] \<and> typo (hd new) \<and> length new = Suc (length (garbage ti)) \<and>
           handleSkippedCharacter (ti, out) =
             (True, ti\<lparr>steps := steps ti @ new, garbage := [], typoFlag := False\<rparr>, out @ new)"
proof -
  let ?new = "\<lparr>codePoint = codePoints ti ! length (steps ti),
               timeStamp = timeStamp (garbage ti ! 0), typo = True\<rparr> #
              map asNonTypo (garbage ti)"
  have "handleSkippedCharacter (ti, out) =
          (True, ti\<lparr>steps := steps ti @ ?new, garbage := [], typoFlag := False\<rparr>, out @ ?new)"
    using assms unfolding handleSkippedCharacter_def
    by (simp add: Let_def addStep_pair fold_commitGarbage split: if_splits)
  then show ?thesis by (intro exI [of _ ?new]) simp
qed

lemma incorrectInput_cases:
  "incorrectInput ti cp ts = (Failed, bufferGarbage ti cp ts, []) \<or>
   (\<exists>new. new \<noteq> [] \<and> typo (hd new) \<and>
      incorrectInput ti cp ts =
        (Recovered, ti\<lparr>steps := steps ti @ new, garbage := [], typoFlag := False\<rparr>, new))"
proof (cases "forgiveErrors ti")
  case False
  then show ?thesis by (simp add: incorrectInput_def Let_def)
next
  case True
  let ?b = "bufferGarbage ti cp ts"
  note ord = incorrectInput_order [OF True, of cp ts]
  show ?thesis
  proof (cases "fst (handleReplacedCharacter (?b, []))")
    case True
    from handleReplacedCharacter_True [OF True] obtain new where
      "new \<noteq> []" "typo (hd new)"
      "handleReplacedCharacter (?b, []) =
         (True, ?b\<lparr>steps := steps ?b @ new, garbage := [], typoFlag := False\<rparr>, [] @ new)"
      by blast
    then show ?thesis using ord True by (auto simp: Let_def)
  next
    case nr: False
    show ?thesis
    proof (cases "fst (handleSkippedCharacter (?b, []))")
      case True
      from handleSkippedCharacter_True [OF True] obtain new where
        "new \<noteq> []" "typo (hd new)"
        "handleSkippedCharacter (?b, []) =
           (True, ?b\<lparr>steps := steps ?b @ new, garbage := [], typoFlag := False\<rparr>, [] @ new)"
        by blast
      then show ?thesis using ord nr True by (auto simp: Let_def)
    next
      case False
      then show ?thesis using ord nr by (simp add: Let_def)
    qed
  qed
qed

lemma wordSkipSteps_hd: "wordSkipSteps u ti ts \<noteq> [] \<and> typo (hd (wordSkipSteps u ti ts))"
  by (simp add: wordSkipSteps_def Let_def)

lemma step_outcome:
  assumes "step u ti cp0 ts = Inr (fb, ti', out)"
  shows
   "(out \<noteq> [] \<and> fb \<noteq> Failed \<and>
       ti' = ti\<lparr>steps := steps ti @ out, garbage := [], typoFlag := False\<rparr> \<and>
       (typoFlag ti \<or> mismatch u ti (normalizeWhitespace u cp0) \<longrightarrow> typo (hd out)) \<and>
       (mismatch u ti (normalizeWhitespace u cp0) \<longrightarrow> fb = Recovered) \<and>
       normalizeWhitespace u cp0 \<noteq> 0x0008)
    \<or> (out = [] \<and> normalizeWhitespace u cp0 = 0x0008 \<and>
        ti' = ti\<lparr>garbage := butlast (garbage ti)\<rparr> \<and>
        fb = (if garbage ti = [] then Failed else Succeeded))
    \<or> (out = [] \<and> normalizeWhitespace u cp0 \<noteq> 0x0008 \<and>
        \<not> mismatch u ti (normalizeWhitespace u cp0) \<and> fb = Succeeded \<and> ti' = ti)
    \<or> (out = [] \<and> mismatch u ti (normalizeWhitespace u cp0) \<and> fb = Failed \<and>
        ti' = bufferGarbage ti (normalizeWhitespace u cp0) ts)"
proof -
  let ?cp = "normalizeWhitespace u cp0"
  have nc: "\<not> completed ti" using assms by (auto simp: step_def split: if_splits)
  consider (a) "atBeginningOfText ti ?cp"
    | (b) "\<not> atBeginningOfText ti ?cp" "?cp = 8"
    | (c) "\<not> atBeginningOfText ti ?cp" "?cp \<noteq> 8" "spaceKey u ti ?cp" "atBeginningOfWord u ti"
    | (d) "\<not> atBeginningOfText ti ?cp" "?cp \<noteq> 8" "spaceKey u ti ?cp"
          "\<not> atBeginningOfWord u ti" "spaceSkipsWords ti"
    | (e) "\<not> atBeginningOfText ti ?cp" "?cp \<noteq> 8"
          "\<not> (spaceKey u ti ?cp \<and> (atBeginningOfWord u ti \<or> spaceSkipsWords ti))"
          "correctInput u ti ?cp"
    | (f) "mismatch u ti ?cp"
    unfolding mismatch_def by blast
  then show ?thesis
  proof cases
    case a
    then have "step u ti cp0 ts = Inr (Succeeded, ti, [])"
      using nc by (simp add: step_def Let_def)
    moreover have "?cp \<noteq> 8" using a by (auto simp: atBeginningOfText_def)
    moreover have "\<not> mismatch u ti ?cp" using a by (simp add: mismatch_def)
    ultimately show ?thesis using assms by simp
  next
    case b
    then have "step u ti cp0 ts =
        (if length (garbage ti) > 0 then Inr (Succeeded, ti\<lparr>garbage := butlast (garbage ti)\<rparr>, [])
         else Inr (Failed, ti, []))"
      using nc by (simp add: step_def Let_def)
    then show ?thesis using assms b by (auto split: if_splits)
  next
    case c
    then have "step u ti cp0 ts = Inr (Succeeded, ti, [])"
      using nc by (simp add: step_def Let_def)
    moreover have "\<not> mismatch u ti ?cp" using c by (simp add: mismatch_def)
    ultimately show ?thesis using assms c by simp
  next
    case d
    then have "step u ti cp0 ts = Inr (Recovered, handleSpace u ts (ti, []))"
      using nc by (simp add: step_def Let_def)
    moreover have "\<not> mismatch u ti ?cp" using d by (simp add: mismatch_def)
    ultimately show ?thesis using assms wordSkipSteps_hd [of u ti ts] d(2)
      by (auto simp: handleSpace_eq)
  next
    case e
    then have "step u ti cp0 ts =
        Inr (if typoFlag ti then Recovered else Succeeded,
             ti\<lparr>steps := steps ti @ [\<lparr>codePoint = ?cp, timeStamp = ts, typo = typoFlag ti\<rparr>],
                garbage := [], typoFlag := False\<rparr>,
             [\<lparr>codePoint = ?cp, timeStamp = ts, typo = typoFlag ti\<rparr>])"
      using nc by (auto simp: step_def Let_def addStep_pair)
    moreover have "\<not> mismatch u ti ?cp" using e by (simp add: mismatch_def)
    ultimately show ?thesis using assms e(2) by auto
  next
    case f
    then have s: "step u ti cp0 ts = Inr (incorrectInput ti ?cp ts)"
      using nc by (auto simp: step_def Let_def mismatch_def)
    from incorrectInput_cases [of ti ?cp ts] show ?thesis
    proof
      assume "incorrectInput ti ?cp ts = (Failed, bufferGarbage ti ?cp ts, [])"
      then show ?thesis using s assms f by simp
    next
      assume "\<exists>new. new \<noteq> [] \<and> typo (hd new) \<and>
        incorrectInput ti ?cp ts =
          (Recovered, ti\<lparr>steps := steps ti @ new, garbage := [], typoFlag := False\<rparr>, new)"
      then obtain new where n: "new \<noteq> []" "typo (hd new)"
        "incorrectInput ti ?cp ts =
          (Recovered, ti\<lparr>steps := steps ti @ new, garbage := [], typoFlag := False\<rparr>, new)"
        by blast
      from n(3) s assms have "fb = Recovered" "out = new"
        "ti' = ti\<lparr>steps := steps ti @ new, garbage := [], typoFlag := False\<rparr>"
        by simp_all
      moreover have "?cp \<noteq> 8" using f by (simp add: mismatch_def)
      ultimately show ?thesis using n(1,2) by simp
    qed
  qed
qed

lemma step_outcome_cases [consumes 1, case_names commit backspace absorbed failed]:
  assumes "step u ti cp0 ts = Inr (fb, ti', out)"
  obtains
    (commit) "out \<noteq> []" "fb \<noteq> Failed"
      "ti' = ti\<lparr>steps := steps ti @ out, garbage := [], typoFlag := False\<rparr>"
      "typoFlag ti \<or> mismatch u ti (normalizeWhitespace u cp0) \<longrightarrow> typo (hd out)"
      "mismatch u ti (normalizeWhitespace u cp0) \<longrightarrow> fb = Recovered"
      "normalizeWhitespace u cp0 \<noteq> 0x0008"
  | (backspace) "out = []" "normalizeWhitespace u cp0 = 0x0008"
      "\<not> mismatch u ti (normalizeWhitespace u cp0)"
      "ti' = ti\<lparr>garbage := butlast (garbage ti)\<rparr>"
      "fb = (if garbage ti = [] then Failed else Succeeded)"
  | (absorbed) "out = []" "normalizeWhitespace u cp0 \<noteq> 0x0008"
      "\<not> mismatch u ti (normalizeWhitespace u cp0)" "fb = Succeeded" "ti' = ti"
  | (failed) "out = []" "mismatch u ti (normalizeWhitespace u cp0)" "fb = Failed"
      "normalizeWhitespace u cp0 \<noteq> 0x0008"
      "ti' = bufferGarbage ti (normalizeWhitespace u cp0) ts"
proof -
  have "normalizeWhitespace u cp0 = 0x0008 \<Longrightarrow> \<not> mismatch u ti (normalizeWhitespace u cp0)"
    by (simp add: mismatch_def)
  with step_outcome [OF assms] that show thesis by blast
qed

section \<open>Rejected input\<close>

text \<open>
  Claim C5, as amended. A call of \<open>step\<close> that returns \<open>Failed\<close> commits nothing and
  hands no step to the listener. It is either a backspace on an empty garbage buffer, which
  leaves the whole state as it was, or a mismatch, which sets the typo flag and appends the
  rejected input to the garbage buffer when buffering is active
  (\<open>\<not> stopOnError \<or> forgiveErrors\<close>) and the buffer holds fewer than 10 entries, and
  changes nothing else.
\<close>

theorem failed_step_effect:
  assumes "step u ti cp0 ts = Inr (Failed, ti', out)"
  shows "out = [] \<and> steps ti' = steps ti \<and>
         ((normalizeWhitespace u cp0 = 0x0008 \<and> garbage ti = [] \<and> ti' = ti) \<or>
          (mismatch u ti (normalizeWhitespace u cp0) \<and>
           ti' = ti\<lparr>garbage :=
                     (if (\<not> stopOnError ti \<or> forgiveErrors ti) \<and> length (garbage ti) < 10
                      then garbage ti @ [\<lparr>codePoint = normalizeWhitespace u cp0,
                                           timeStamp = ts, typo = False\<rparr>]
                      else garbage ti),
                   typoFlag := True\<rparr>))"
  using assms
proof (cases rule: step_outcome_cases)
  case commit
  then show ?thesis by simp
next
  case backspace
  then have "garbage ti = []" by (simp split: if_splits)
  with backspace show ?thesis by simp
next
  case absorbed
  then show ?thesis by simp
next
  case failed
  have "bufferGarbage ti (normalizeWhitespace u cp0) ts = ti\<lparr>garbage :=
                     (if (\<not> stopOnError ti \<or> forgiveErrors ti) \<and> length (garbage ti) < 10
                      then garbage ti @ [\<lparr>codePoint = normalizeWhitespace u cp0,
                                           timeStamp = ts, typo = False\<rparr>]
                      else garbage ti),
                   typoFlag := True\<rparr>"
    by (simp add: bufferGarbage_def Let_def garbageBufferLength_def)
  with failed show ?thesis by simp
qed

text \<open>
  Claim C5 as stated fails: on the text "ab" with all settings off, the input x is rejected
  with \<open>Failed\<close>, and the call has put x into the garbage buffer and set the typo flag.
\<close>

theorem failed_step_counterexample:
  "step plain
     \<lparr>text' = ''ab'', codePoints = [97, 98], stopOnError = False, forgiveErrors = False,
       spaceSkipsWords = False, steps = [], garbage = [], typoFlag = False\<rparr> 120 1 =
   Inr (Failed,
     \<lparr>text' = ''ab'', codePoints = [97, 98], stopOnError = False, forgiveErrors = False,
       spaceSkipsWords = False, steps = [],
       garbage = [\<lparr>codePoint = 120, timeStamp = 1, typo = False\<rparr>], typoFlag = True\<rparr>, [])
   \<and> garbage
     \<lparr>text' = ''ab'', codePoints = [97, 98], stopOnError = False, forgiveErrors = False,
       spaceSkipsWords = False, steps = [],
       garbage = [\<lparr>codePoint = 120, timeStamp = 1, typo = False\<rparr>], typoFlag = True\<rparr> \<noteq>
     garbage
     \<lparr>text' = ''ab'', codePoints = [97, 98], stopOnError = False, forgiveErrors = False,
       spaceSkipsWords = False, steps = [], garbage = [], typoFlag = False\<rparr>
   \<and> typoFlag
     \<lparr>text' = ''ab'', codePoints = [97, 98], stopOnError = False, forgiveErrors = False,
       spaceSkipsWords = False, steps = [],
       garbage = [\<lparr>codePoint = 120, timeStamp = 1, typo = False\<rparr>], typoFlag = True\<rparr> \<noteq>
     typoFlag
     \<lparr>text' = ''ab'', codePoints = [97, 98], stopOnError = False, forgiveErrors = False,
       spaceSkipsWords = False, steps = [], garbage = [], typoFlag = False\<rparr>"
  by code_simp

theorem failed_step_effect_witness:
  "step plain
     \<lparr>text' = ''ab'', codePoints = [97, 98], stopOnError = True, forgiveErrors = False,
       spaceSkipsWords = False, steps = [], garbage = [], typoFlag = False\<rparr> 120 1 =
   Inr (Failed,
     \<lparr>text' = ''ab'', codePoints = [97, 98], stopOnError = True, forgiveErrors = False,
       spaceSkipsWords = False, steps = [], garbage = [], typoFlag = True\<rparr>, [])
   \<and> mismatch plain
     \<lparr>text' = ''ab'', codePoints = [97, 98], stopOnError = True, forgiveErrors = False,
       spaceSkipsWords = False, steps = [], garbage = [], typoFlag = False\<rparr> 120"
proof -
  have s: "step plain
     \<lparr>text' = ''ab'', codePoints = [97, 98], stopOnError = True, forgiveErrors = False,
       spaceSkipsWords = False, steps = [], garbage = [], typoFlag = False\<rparr> 120 1 =
   Inr (Failed,
     \<lparr>text' = ''ab'', codePoints = [97, 98], stopOnError = True, forgiveErrors = False,
       spaceSkipsWords = False, steps = [], garbage = [], typoFlag = True\<rparr>, [])"
    by code_simp
  from failed_step_effect [OF s] s show ?thesis by (simp add: plain_def)
qed

section \<open>The typo flag\<close>

lemma run_steps:
  "run u ti ins = (fbs, ti', out) \<Longrightarrow> steps ti' = steps ti @ out"
proof (induction ins arbitrary: ti fbs ti' out)
  case Nil
  then show ?case by simp
next
  case (Cons a ins)
  obtain cp ts where a: "a = (cp, ts)" by (cases a)
  show ?case
  proof (cases "step u ti cp ts")
    case (Inl e)
    obtain fbs2 ti2 out2 where r2: "run u ti ins = (fbs2, ti2, out2)" by (cases "run u ti ins")
    have o: "out = out2" "ti' = ti2" using Cons.prems a Inl r2 by simp_all
    from Cons.IH [OF r2] show ?thesis using o by simp
  next
    case (Inr r)
    obtain fb ti1 out1 where r: "r = (fb, ti1, out1)" by (cases r)
    obtain fbs2 ti2 out2 where r2: "run u ti1 ins = (fbs2, ti2, out2)" by (cases "run u ti1 ins")
    from Inr [unfolded r] have "steps ti1 = steps ti @ out1"
      by (cases rule: step_outcome_cases) simp_all
    moreover from Cons.IH [OF r2] have "steps ti2 = steps ti1 @ out2" .
    moreover have "out = out1 @ out2" "ti' = ti2" using Cons.prems a Inr r r2 by simp_all
    ultimately show ?thesis by simp
  qed
qed

lemma run_typo:
  "typoFlag ti \<Longrightarrow> run u ti ins = (fbs, ti', out) \<Longrightarrow>
   (if out = [] then typoFlag ti' else typo (hd out))"
proof (induction ins arbitrary: ti fbs ti' out)
  case Nil
  then show ?case by simp
next
  case (Cons a ins)
  obtain cp ts where a: "a = (cp, ts)" by (cases a)
  show ?case
  proof (cases "step u ti cp ts")
    case (Inl e)
    obtain fbs2 ti2 out2 where r2: "run u ti ins = (fbs2, ti2, out2)" by (cases "run u ti ins")
    have o: "out = out2" "ti' = ti2" using Cons.prems a Inl r2 by simp_all
    from Cons.IH [OF Cons.prems(1) r2] show ?thesis using o by simp
  next
    case (Inr r)
    obtain fb ti1 out1 where r: "r = (fb, ti1, out1)" by (cases r)
    obtain fbs2 ti2 out2 where r2: "run u ti1 ins = (fbs2, ti2, out2)" by (cases "run u ti1 ins")
    have o: "out = out1 @ out2" "ti' = ti2" using Cons.prems a Inr r r2 by simp_all
    show ?thesis
    proof (cases "out1 = []")
      case True
      from Inr [unfolded r] have "typoFlag ti1"
        using True Cons.prems(1) by (cases rule: step_outcome_cases) simp_all
      from Cons.IH [OF this r2] show ?thesis using o True by simp
    next
      case False
      from Inr [unfolded r] have "typo (hd out1)"
        using False Cons.prems(1) by (cases rule: step_outcome_cases) simp_all
      then show ?thesis using o False by simp
    qed
  qed
qed

text \<open>
  Claim C6. For every call of \<open>step\<close> that returns: the typo flag goes from unset to set
  only on a mismatch, and a mismatch leaves it set unless a recovery commits in the same
  call (the first step committed is then a typo); the flag goes from set to unset only
  when the call commits; whenever the call commits, the flag is cleared, and if it was set
  before, the first step committed is a typo; a backspace only pops the garbage buffer;
  \<open>reset\<close> clears the flag. Over any sequence of calls from a state with the flag set,
  either nothing is committed and the flag is still set, or the first step committed is a
  typo. The exception of the claim ("unless an intervening backspace has cleared the
  mismatch") never applies, since a backspace does not touch the flag, as the claim itself
  says.
\<close>

theorem typo_flag_lifecycle:
  assumes "step u ti cp0 ts = Inr (fb, ti', out)"
  shows "(\<not> typoFlag ti \<and> typoFlag ti' \<longrightarrow> mismatch u ti (normalizeWhitespace u cp0))
       \<and> (mismatch u ti (normalizeWhitespace u cp0) \<longrightarrow>
            (fb = Failed \<and> out = [] \<and> typoFlag ti') \<or>
            (fb = Recovered \<and> out \<noteq> [] \<and> typo (hd out) \<and> \<not> typoFlag ti'))
       \<and> (typoFlag ti \<and> \<not> typoFlag ti' \<longrightarrow> out \<noteq> [])
       \<and> (out \<noteq> [] \<longrightarrow> \<not> typoFlag ti' \<and> (typoFlag ti \<longrightarrow> typo (hd out)))
       \<and> steps ti' = steps ti @ out
       \<and> (normalizeWhitespace u cp0 = 0x0008 \<longrightarrow>
            ti' = ti\<lparr>garbage := butlast (garbage ti)\<rparr> \<and> out = [])
       \<and> \<not> typoFlag (reset ti)
       \<and> (\<forall>ins fbs ti2 out2. typoFlag ti \<and> run u ti ins = (fbs, ti2, out2) \<longrightarrow>
            steps ti2 = steps ti @ out2 \<and> (if out2 = [] then typoFlag ti2 else typo (hd out2)))"
proof -
  have "(\<not> typoFlag ti \<and> typoFlag ti' \<longrightarrow> mismatch u ti (normalizeWhitespace u cp0))
       \<and> (mismatch u ti (normalizeWhitespace u cp0) \<longrightarrow>
            (fb = Failed \<and> out = [] \<and> typoFlag ti') \<or>
            (fb = Recovered \<and> out \<noteq> [] \<and> typo (hd out) \<and> \<not> typoFlag ti'))
       \<and> (typoFlag ti \<and> \<not> typoFlag ti' \<longrightarrow> out \<noteq> [])
       \<and> (out \<noteq> [] \<longrightarrow> \<not> typoFlag ti' \<and> (typoFlag ti \<longrightarrow> typo (hd out)))
       \<and> steps ti' = steps ti @ out
       \<and> (normalizeWhitespace u cp0 = 0x0008 \<longrightarrow>
            ti' = ti\<lparr>garbage := butlast (garbage ti)\<rparr> \<and> out = [])"
    using assms by (cases rule: step_outcome_cases) simp_all
  moreover have "\<not> typoFlag (reset ti)" by (simp add: reset_def)
  moreover have "\<forall>ins fbs ti2 out2. typoFlag ti \<and> run u ti ins = (fbs, ti2, out2) \<longrightarrow>
            steps ti2 = steps ti @ out2 \<and> (if out2 = [] then typoFlag ti2 else typo (hd out2))"
  proof (intro allI impI, elim conjE)
    fix ins fbs ti2 out2
    assume t: "typoFlag ti" and r: "run u ti ins = (fbs, ti2, out2)"
    from run_steps [OF r] run_typo [OF t r]
    show "steps ti2 = steps ti @ out2 \<and> (if out2 = [] then typoFlag ti2 else typo (hd out2))"
      by simp
  qed
  ultimately show ?thesis by (intro conjI) simp_all
qed

theorem typo_flag_lifecycle_witness:
  "step plain
     \<lparr>text' = ''ab'', codePoints = [97, 98], stopOnError = False, forgiveErrors = False,
       spaceSkipsWords = False, steps = [],
       garbage = [\<lparr>codePoint = 120, timeStamp = 1, typo = False\<rparr>], typoFlag = True\<rparr> 8 2 =
   Inr (Succeeded,
     \<lparr>text' = ''ab'', codePoints = [97, 98], stopOnError = False, forgiveErrors = False,
       spaceSkipsWords = False, steps = [], garbage = [], typoFlag = True\<rparr>, [])
   \<and> run plain
     \<lparr>text' = ''ab'', codePoints = [97, 98], stopOnError = False, forgiveErrors = False,
       spaceSkipsWords = False, steps = [],
       garbage = [\<lparr>codePoint = 120, timeStamp = 1, typo = False\<rparr>], typoFlag = True\<rparr>
     [(8, 2), (97, 3)] =
   ([Inr Succeeded, Inr Recovered],
     \<lparr>text' = ''ab'', codePoints = [97, 98], stopOnError = False, forgiveErrors = False,
       spaceSkipsWords = False, steps = [\<lparr>codePoint = 97, timeStamp = 3, typo = True\<rparr>],
       garbage = [], typoFlag = False\<rparr>,
     [\<lparr>codePoint = 97, timeStamp = 3, typo = True\<rparr>])"
proof -
  have s: "step plain
     \<lparr>text' = ''ab'', codePoints = [97, 98], stopOnError = False, forgiveErrors = False,
       spaceSkipsWords = False, steps = [],
       garbage = [\<lparr>codePoint = 120, timeStamp = 1, typo = False\<rparr>], typoFlag = True\<rparr> 8 2 =
   Inr (Succeeded,
     \<lparr>text' = ''ab'', codePoints = [97, 98], stopOnError = False, forgiveErrors = False,
       spaceSkipsWords = False, steps = [], garbage = [], typoFlag = True\<rparr>, [])"
    by code_simp
  have r: "run plain
     \<lparr>text' = ''ab'', codePoints = [97, 98], stopOnError = False, forgiveErrors = False,
       spaceSkipsWords = False, steps = [],
       garbage = [\<lparr>codePoint = 120, timeStamp = 1, typo = False\<rparr>], typoFlag = True\<rparr>
     [(8, 2), (97, 3)] =
   ([Inr Succeeded, Inr Recovered],
     \<lparr>text' = ''ab'', codePoints = [97, 98], stopOnError = False, forgiveErrors = False,
       spaceSkipsWords = False, steps = [\<lparr>codePoint = 97, timeStamp = 3, typo = True\<rparr>],
       garbage = [], typoFlag = False\<rparr>,
     [\<lparr>codePoint = 97, timeStamp = 3, typo = True\<rparr>])"
    by code_simp
  from typo_flag_lifecycle [OF s] s r show ?thesis by blast
qed

section \<open>The garbage buffer and the invariant of the machine\<close>

lemma handleReplacedCharacter_fst:
  "fst (handleReplacedCharacter (ti, out)) \<longleftrightarrow>
     4 \<le> length (garbage ti) \<and> length (steps ti) + 4 \<le> length (codePoints ti) \<and>
     (\<forall>i<3. codePoints ti ! (length (steps ti) + i + 1) = codePoint (garbage ti ! (i + 1)))"
  unfolding handleReplacedCharacter_def recoverBufferLength_def
  by (auto simp: Let_def all_below_3)

lemma handleSkippedCharacter_fst:
  "fst (handleSkippedCharacter (ti, out)) \<longleftrightarrow>
     3 \<le> length (garbage ti) \<and> length (steps ti) + 4 \<le> length (codePoints ti) \<and>
     (\<forall>i<3. codePoints ti ! (length (steps ti) + i + 1) = codePoint (garbage ti ! i))"
  unfolding handleSkippedCharacter_def recoverBufferLength_def
  by (auto simp: Let_def all_below_3)

lemma take_nth_eq:
  assumes "take n xs = take n ys" "i < n" "n \<le> length xs" "n \<le> length ys"
  shows "xs ! i = ys ! i"
proof -
  have "xs ! i = take n xs ! i" using assms(2) by simp
  also have "\<dots> = take n ys ! i" using assms(1) by simp
  also have "\<dots> = ys ! i" using assms(2) by simp
  finally show ?thesis .
qed

lemma take_length_ge:
  assumes "take n xs = take n ys" "n \<le> length xs"
  shows "n \<le> length ys"
proof -
  have "length (take n ys) = n" using assms by (metis length_take min.absorb2)
  then show ?thesis by simp
qed

lemma replaced_depends:
  assumes "steps a = steps b" "codePoints a = codePoints b"
    "take 4 (garbage a) = take 4 (garbage b)"
    "fst (handleReplacedCharacter (a, oa))"
  shows "fst (handleReplacedCharacter (b, ob))"
proof -
  from assms(4) have a: "4 \<le> length (garbage a)"
    "length (steps a) + 4 \<le> length (codePoints a)"
    "\<forall>i<3. codePoints a ! (length (steps a) + i + 1) = codePoint (garbage a ! (i + 1))"
    by (simp_all add: handleReplacedCharacter_fst)
  have b: "4 \<le> length (garbage b)" using take_length_ge [OF assms(3) a(1)] .
  have "garbage a ! (i + 1) = garbage b ! (i + 1)" if "i < 3" for i
    using take_nth_eq [OF assms(3) _ a(1) b, of "i + 1"] that by simp
  then show ?thesis using a b assms(1,2) by (simp add: handleReplacedCharacter_fst)
qed

lemma skipped_depends:
  assumes "steps a = steps b" "codePoints a = codePoints b"
    "take 3 (garbage a) = take 3 (garbage b)"
    "fst (handleSkippedCharacter (a, oa))"
  shows "fst (handleSkippedCharacter (b, ob))"
proof -
  from assms(4) have a: "3 \<le> length (garbage a)"
    "length (steps a) + 4 \<le> length (codePoints a)"
    "\<forall>i<3. codePoints a ! (length (steps a) + i + 1) = codePoint (garbage a ! i)"
    by (simp_all add: handleSkippedCharacter_fst)
  have b: "3 \<le> length (garbage b)" using take_length_ge [OF assms(3) a(1)] .
  have "garbage a ! i = garbage b ! i" if "i < 3" for i
    using take_nth_eq [OF assms(3) that a(1) b] .
  then show ?thesis using a b assms(1,2) by (simp add: handleSkippedCharacter_fst)
qed

lemma wordSkipSteps_length:
  assumes "length (steps ti) < length (codePoints ti)"
  shows "length (steps ti) + length (wordSkipSteps u ti ts) \<le> length (codePoints ti)"
proof -
  let ?P = "\<lambda>c. \<not> isWhitespace u c"
  let ?rest = "drop (Suc (length (steps ti))) (codePoints ti)"
  have "length (takeWhile ?P ?rest) + length (dropWhile ?P ?rest) = length ?rest"
    by (metis length_append takeWhile_dropWhile_id)
  moreover have "length (case dropWhile ?P ?rest of [] \<Rightarrow> []
      | c # _ \<Rightarrow> [\<lparr>codePoint = c, timeStamp = ts, typo = False\<rparr>]) \<le> length (dropWhile ?P ?rest)"
    by (simp split: list.split)
  ultimately show ?thesis using assms by (simp add: wordSkipSteps_def Let_def)
qed

lemma inv_new: "machine_inv (TextInput_new u txt soe fe ssw)"
  by (simp add: machine_inv_def TextInput_new_def reset_def handleReplacedCharacter_fst
      handleSkippedCharacter_fst)

lemma inv_reset: "machine_inv (reset ti)"
  by (simp add: machine_inv_def reset_def handleReplacedCharacter_fst handleSkippedCharacter_fst)

lemma inv_cleared:
  "length xs \<le> length (codePoints ti) \<Longrightarrow>
   machine_inv (ti\<lparr>steps := xs, garbage := [], typoFlag := False\<rparr>)"
  by (simp add: machine_inv_def handleReplacedCharacter_fst handleSkippedCharacter_fst)

lemma step_commit_length:
  assumes "step u ti cp0 ts = Inr (fb, ti', out)" "out \<noteq> []"
  shows "length out = 1 \<or> out = wordSkipSteps u ti ts \<or>
     (forgiveErrors ti \<and>
       ((fst (handleReplacedCharacter (bufferGarbage ti (normalizeWhitespace u cp0) ts, [])) \<and>
         length out = length (garbage (bufferGarbage ti (normalizeWhitespace u cp0) ts))) \<or>
        (fst (handleSkippedCharacter (bufferGarbage ti (normalizeWhitespace u cp0) ts, [])) \<and>
         length out = Suc (length (garbage (bufferGarbage ti (normalizeWhitespace u cp0) ts))))))"
proof -
  let ?cp = "normalizeWhitespace u cp0"
  let ?b = "bufferGarbage ti ?cp ts"
  have nc: "\<not> completed ti" using assms by (auto simp: step_def split: if_splits)
  consider (a) "atBeginningOfText ti ?cp"
    | (b) "\<not> atBeginningOfText ti ?cp" "?cp = 8"
    | (c) "\<not> atBeginningOfText ti ?cp" "?cp \<noteq> 8" "spaceKey u ti ?cp" "atBeginningOfWord u ti"
    | (d) "\<not> atBeginningOfText ti ?cp" "?cp \<noteq> 8" "spaceKey u ti ?cp"
          "\<not> atBeginningOfWord u ti" "spaceSkipsWords ti"
    | (e) "\<not> atBeginningOfText ti ?cp" "?cp \<noteq> 8"
          "\<not> (spaceKey u ti ?cp \<and> (atBeginningOfWord u ti \<or> spaceSkipsWords ti))"
          "correctInput u ti ?cp"
    | (f) "mismatch u ti ?cp"
    unfolding mismatch_def by blast
  then show ?thesis
  proof cases
    case a
    then have "step u ti cp0 ts = Inr (Succeeded, ti, [])"
      using nc by (simp add: step_def Let_def)
    then show ?thesis using assms by simp
  next
    case b
    then have "step u ti cp0 ts =
        (if length (garbage ti) > 0 then Inr (Succeeded, ti\<lparr>garbage := butlast (garbage ti)\<rparr>, [])
         else Inr (Failed, ti, []))"
      using nc by (simp add: step_def Let_def)
    then show ?thesis using assms by (simp split: if_splits)
  next
    case c
    then have "step u ti cp0 ts = Inr (Succeeded, ti, [])"
      using nc by (simp add: step_def Let_def)
    then show ?thesis using assms by simp
  next
    case d
    then have "step u ti cp0 ts = Inr (Recovered, handleSpace u ts (ti, []))"
      using nc by (simp add: step_def Let_def)
    then show ?thesis using assms by (simp add: handleSpace_eq)
  next
    case e
    then have "step u ti cp0 ts =
        Inr (if typoFlag ti then Recovered else Succeeded,
             ti\<lparr>steps := steps ti @ [\<lparr>codePoint = ?cp, timeStamp = ts, typo = typoFlag ti\<rparr>],
                garbage := [], typoFlag := False\<rparr>,
             [\<lparr>codePoint = ?cp, timeStamp = ts, typo = typoFlag ti\<rparr>])"
      using nc by (auto simp: step_def Let_def addStep_pair)
    then have "length out = 1" using assms by simp
    then show ?thesis by simp
  next
    case f
    then have s: "step u ti cp0 ts = Inr (incorrectInput ti ?cp ts)"
      using nc by (auto simp: step_def Let_def mismatch_def)
    show ?thesis
    proof (cases "forgiveErrors ti")
      case False
      then have "incorrectInput ti ?cp ts = (Failed, ?b, [])"
        by (simp add: incorrectInput_def Let_def)
      then show ?thesis using s assms by simp
    next
      case True
      note ord = incorrectInput_order [OF True, of ?cp ts]
      show ?thesis
      proof (cases "fst (handleReplacedCharacter (?b, []))")
        case r: True
        from handleReplacedCharacter_True [OF r] obtain new where
          n: "length new = length (garbage ?b)"
          "handleReplacedCharacter (?b, []) =
            (True, ?b\<lparr>steps := steps ?b @ new, garbage := [], typoFlag := False\<rparr>, [] @ new)"
          by blast
        from ord r n(2) have "incorrectInput ti ?cp ts =
            (Recovered, ?b\<lparr>steps := steps ?b @ new, garbage := [], typoFlag := False\<rparr>, new)"
          by (simp add: Let_def)
        with s assms have "out = new" by simp
        then show ?thesis using True r n(1) by simp
      next
        case nr: False
        show ?thesis
        proof (cases "fst (handleSkippedCharacter (?b, []))")
          case k: True
          from handleSkippedCharacter_True [OF k] obtain new where
            n: "length new = Suc (length (garbage ?b))"
            "handleSkippedCharacter (?b, []) =
              (True, ?b\<lparr>steps := steps ?b @ new, garbage := [], typoFlag := False\<rparr>, [] @ new)"
            by blast
          from ord nr k n(2) have "incorrectInput ti ?cp ts =
              (Recovered, ?b\<lparr>steps := steps ?b @ new, garbage := [], typoFlag := False\<rparr>, new)"
            by (simp add: Let_def)
          with s assms have "out = new" by simp
          then show ?thesis using True k n(1) by simp
        next
          case False
          with ord nr have "incorrectInput ti ?cp ts = (Failed, ?b, [])" by (simp add: Let_def)
          then show ?thesis using s assms by simp
        qed
      qed
    qed
  qed
qed

lemma bufferGarbage_take:
  "n \<le> length (garbage ti) \<Longrightarrow> take n (garbage (bufferGarbage ti cp ts)) = take n (garbage ti)"
  by (simp add: bufferGarbage_garbage)

lemma step_not_completed: "step u ti cp0 ts = Inr r \<Longrightarrow> \<not> completed ti"
  by (auto simp: step_def split: if_splits)

lemma step_mismatch:
  "\<not> completed ti \<Longrightarrow> mismatch u ti (normalizeWhitespace u cp0) \<Longrightarrow>
   step u ti cp0 ts = Inr (incorrectInput ti (normalizeWhitespace u cp0) ts)"
  by (auto simp: step_def Let_def mismatch_def)

lemma incorrectInput_Failed:
  assumes "incorrectInput ti cp ts = (Failed, ti', out)" "forgiveErrors ti"
  shows "\<not> fst (handleReplacedCharacter (bufferGarbage ti cp ts, [])) \<and>
         \<not> fst (handleSkippedCharacter (bufferGarbage ti cp ts, []))"
  using assms incorrectInput_order [OF assms(2), of cp ts]
  by (auto simp: Let_def split: if_splits)

lemma take_butlast_le: "n \<le> length (butlast xs) \<Longrightarrow> take n (butlast xs) = take n xs"
  by (cases xs rule: rev_cases) simp_all

lemma inv_step:
  assumes inv: "machine_inv ti" and s: "step u ti cp0 ts = Inr (fb, ti', out)"
  shows "machine_inv ti'"
  using s
proof (cases rule: step_outcome_cases)
  case commit
  let ?cp = "normalizeWhitespace u cp0"
  let ?b = "bufferGarbage ti ?cp ts"
  have lt: "length (steps ti) < length (codePoints ti)"
    using inv step_not_completed [OF s] by (simp add: machine_inv_def completed_def)
  have gb: "length (garbage ?b) \<le> Suc (length (garbage ti))"
    by (simp add: bufferGarbage_garbage)
  from step_commit_length [OF s commit(1)]
  have "length (steps ti) + length out \<le> length (codePoints ti)"
  proof (elim disjE conjE)
    assume "length out = 1"
    then show ?thesis using lt by simp
  next
    assume "out = wordSkipSteps u ti ts"
    then show ?thesis using wordSkipSteps_length [OF lt] by simp
  next
    assume fe: "forgiveErrors ti"
      and r: "fst (handleReplacedCharacter (?b, []))"
      and l: "length out = length (garbage ?b)"
    have "\<not> 4 \<le> length (garbage ti)"
    proof
      assume "4 \<le> length (garbage ti)"
      then have "take 4 (garbage ?b) = take 4 (garbage ti)" by (rule bufferGarbage_take)
      from replaced_depends [OF _ _ this r, of "[]"] have "fst (handleReplacedCharacter (ti, []))"
        by simp
      then show False using inv fe by (simp add: machine_inv_def)
    qed
    then have "length (garbage ?b) \<le> 4" using gb by linarith
    moreover have "length (steps ti) + 4 \<le> length (codePoints ti)"
      using r by (simp add: handleReplacedCharacter_fst)
    ultimately show ?thesis using l by simp
  next
    assume fe: "forgiveErrors ti"
      and k: "fst (handleSkippedCharacter (?b, []))"
      and l: "length out = Suc (length (garbage ?b))"
    have "\<not> 3 \<le> length (garbage ti)"
    proof
      assume "3 \<le> length (garbage ti)"
      then have "take 3 (garbage ?b) = take 3 (garbage ti)" by (rule bufferGarbage_take)
      from skipped_depends [OF _ _ this k, of "[]"] have "fst (handleSkippedCharacter (ti, []))"
        by simp
      then show False using inv fe by (simp add: machine_inv_def)
    qed
    then have "length (garbage ?b) \<le> 3" using gb by linarith
    moreover have "length (steps ti) + 4 \<le> length (codePoints ti)"
      using k by (simp add: handleSkippedCharacter_fst)
    ultimately show ?thesis using l by simp
  qed
  then have "length (steps ti @ out) \<le> length (codePoints ti)" by simp
  from inv_cleared [OF this] show ?thesis using commit(3) by simp
next
  case backspace
  have r: "\<not> fst (handleReplacedCharacter (ti', []))" if fe: "forgiveErrors ti"
  proof
    assume a: "fst (handleReplacedCharacter (ti', []))"
    then have "4 \<le> length (garbage ti')" by (simp add: handleReplacedCharacter_fst)
    then have "take 4 (garbage ti') = take 4 (garbage ti)"
      using backspace(4) by (simp add: take_butlast_le)
    from replaced_depends [OF _ _ this a, of "[]"] backspace(4)
    have "fst (handleReplacedCharacter (ti, []))" by simp
    then show False using inv fe by (simp add: machine_inv_def)
  qed
  have k: "\<not> fst (handleSkippedCharacter (ti', []))" if fe: "forgiveErrors ti"
  proof
    assume a: "fst (handleSkippedCharacter (ti', []))"
    then have "3 \<le> length (garbage ti')" by (simp add: handleSkippedCharacter_fst)
    then have "take 3 (garbage ti') = take 3 (garbage ti)"
      using backspace(4) by (simp add: take_butlast_le)
    from skipped_depends [OF _ _ this a, of "[]"] backspace(4)
    have "fst (handleSkippedCharacter (ti, []))" by simp
    then show False using inv fe by (simp add: machine_inv_def)
  qed
  have "length (garbage ti') \<le> garbageBufferLength"
    using inv backspace(4) by (auto simp: machine_inv_def)
  moreover have "length (steps ti') \<le> length (codePoints ti')"
    using inv backspace(4) by (simp add: machine_inv_def)
  moreover have "forgiveErrors ti' = forgiveErrors ti" using backspace(4) by simp
  ultimately show ?thesis using r k by (simp add: machine_inv_def)
next
  case absorbed
  then show ?thesis using inv by simp
next
  case failed
  let ?cp = "normalizeWhitespace u cp0"
  have "step u ti cp0 ts = Inr (incorrectInput ti ?cp ts)"
    using step_mismatch [OF step_not_completed [OF s] failed(2)] .
  with s failed have i: "incorrectInput ti ?cp ts = (Failed, ti', [])" by simp
  have "length (garbage ti') \<le> garbageBufferLength"
    using inv failed(5) by (simp add: machine_inv_def bufferGarbage_garbage garbageBufferLength_def)
  moreover have "length (steps ti') \<le> length (codePoints ti')"
    using inv failed(5) by (simp add: machine_inv_def)
  moreover have "forgiveErrors ti' = forgiveErrors ti" using failed(5) by simp
  ultimately show ?thesis using incorrectInput_Failed [OF i] failed(5)
    by (simp add: machine_inv_def)
qed

lemma inv_calls: "machine_inv ti \<Longrightarrow> machine_inv (calls u ti cs)"
proof (induction cs arbitrary: ti)
  case Nil
  then show ?case by simp
next
  case (Cons c cs)
  show ?case
  proof (cases c)
    case (StepCall cp ts)
    show ?thesis
    proof (cases "step u ti cp ts")
      case (Inl e)
      then show ?thesis using Cons StepCall by simp
    next
      case (Inr r)
      obtain fb ti1 out1 where r: "r = (fb, ti1, out1)" by (cases r)
      from inv_step [OF Cons.prems Inr [unfolded r]] have "machine_inv ti1" .
      from Cons.IH [OF this] show ?thesis using StepCall Inr r by simp
    qed
  next
    case ResetCall
    from Cons.IH [OF inv_reset [of ti]] show ?thesis using ResetCall by simp
  qed
qed

lemma reachable_inv: "machine_inv (calls u (TextInput_new u txt soe fe ssw) cs)"
  using inv_new by (rule inv_calls)

lemma full_buffer_drop:
  assumes inv: "machine_inv ti" and nc: "\<not> completed ti"
    and full: "length (garbage ti) = 10"
    and mm: "mismatch u ti (normalizeWhitespace u cp0)"
  shows "step u ti cp0 ts = Inr (Failed, ti\<lparr>typoFlag := True\<rparr>, [])"
proof -
  let ?cp = "normalizeWhitespace u cp0"
  have b: "bufferGarbage ti ?cp ts = ti\<lparr>typoFlag := True\<rparr>"
    using full by (simp add: bufferGarbage_def Let_def garbageBufferLength_def)
  have "incorrectInput ti ?cp ts = (Failed, ti\<lparr>typoFlag := True\<rparr>, [])"
  proof (cases "forgiveErrors ti")
    case False
    then show ?thesis using b by (simp add: incorrectInput_def Let_def)
  next
    case True
    have "\<not> fst (handleReplacedCharacter (ti\<lparr>typoFlag := True\<rparr>, []))"
      using replaced_depends [of "ti\<lparr>typoFlag := True\<rparr>" ti "[]" "[]"] inv True
      by (auto simp: machine_inv_def)
    moreover have "\<not> fst (handleSkippedCharacter (ti\<lparr>typoFlag := True\<rparr>, []))"
      using skipped_depends [of "ti\<lparr>typoFlag := True\<rparr>" ti "[]" "[]"] inv True
      by (auto simp: machine_inv_def)
    ultimately show ?thesis using incorrectInput_order [OF True, of ?cp ts] b
      by (simp add: Let_def)
  qed
  then show ?thesis using step_mismatch [OF nc mm, of ts] by simp
qed

text \<open>
  Claim C7, as amended. After any sequence of calls of \<open>step\<close> and \<open>reset\<close> on a new
  machine the garbage buffer holds at most 10 entries. When it holds 10, a further
  mistyped input is answered with \<open>Failed\<close>, raises no error and is dropped: the buffer
  keeps the 10 entries it has, so the entries retained are the older ones and the most
  recent mistyped input is not among them.
\<close>

theorem garbage_bound:
  "length (garbage (calls u (TextInput_new u txt soe fe ssw) cs)) \<le> 10 \<and>
   (\<not> completed (calls u (TextInput_new u txt soe fe ssw) cs) \<and>
    length (garbage (calls u (TextInput_new u txt soe fe ssw) cs)) = 10 \<and>
    mismatch u (calls u (TextInput_new u txt soe fe ssw) cs) (normalizeWhitespace u cp0) \<longrightarrow>
    step u (calls u (TextInput_new u txt soe fe ssw) cs) cp0 ts =
      Inr (Failed, (calls u (TextInput_new u txt soe fe ssw) cs)\<lparr>typoFlag := True\<rparr>, []))"
proof -
  have inv: "machine_inv (calls u (TextInput_new u txt soe fe ssw) cs)"
    by (rule reachable_inv)
  then have "length (garbage (calls u (TextInput_new u txt soe fe ssw) cs)) \<le> 10"
    by (simp add: machine_inv_def garbageBufferLength_def)
  then show ?thesis using full_buffer_drop [OF inv] by blast
qed

theorem garbage_bound_witness:
  "length (garbage (calls plain (TextInput_new plain ''a'' False False False)
      [StepCall 98 1, StepCall 99 2, StepCall 100 3, StepCall 101 4, StepCall 102 5,
       StepCall 103 6, StepCall 104 7, StepCall 105 8, StepCall 106 9, StepCall 107 10])) \<le> 10
   \<and> step plain (calls plain (TextInput_new plain ''a'' False False False)
      [StepCall 98 1, StepCall 99 2, StepCall 100 3, StepCall 101 4, StepCall 102 5,
       StepCall 103 6, StepCall 104 7, StepCall 105 8, StepCall 106 9, StepCall 107 10]) 108 11 =
     Inr (Failed, (calls plain (TextInput_new plain ''a'' False False False)
      [StepCall 98 1, StepCall 99 2, StepCall 100 3, StepCall 101 4, StepCall 102 5,
       StepCall 103 6, StepCall 104 7, StepCall 105 8, StepCall 106 9, StepCall 107 10])
        \<lparr>typoFlag := True\<rparr>, [])"
proof -
  have p: "\<not> completed (calls plain (TextInput_new plain ''a'' False False False)
      [StepCall 98 1, StepCall 99 2, StepCall 100 3, StepCall 101 4, StepCall 102 5,
       StepCall 103 6, StepCall 104 7, StepCall 105 8, StepCall 106 9, StepCall 107 10]) \<and>
    length (garbage (calls plain (TextInput_new plain ''a'' False False False)
      [StepCall 98 1, StepCall 99 2, StepCall 100 3, StepCall 101 4, StepCall 102 5,
       StepCall 103 6, StepCall 104 7, StepCall 105 8, StepCall 106 9, StepCall 107 10])) = 10 \<and>
    mismatch plain (calls plain (TextInput_new plain ''a'' False False False)
      [StepCall 98 1, StepCall 99 2, StepCall 100 3, StepCall 101 4, StepCall 102 5,
       StepCall 103 6, StepCall 104 7, StepCall 105 8, StepCall 106 9, StepCall 107 10])
      (normalizeWhitespace plain 108)"
    by code_simp
  from garbage_bound [of plain "''a''" False False False
      "[StepCall 98 1, StepCall 99 2, StepCall 100 3, StepCall 101 4, StepCall 102 5,
       StepCall 103 6, StepCall 104 7, StepCall 105 8, StepCall 106 9, StepCall 107 10]" 108 11] p
  show ?thesis by blast
qed

text \<open>
  Claim C7 as stated fails in its last part: after 11 mistyped inputs b, c, ..., l on the
  text "a" the buffer holds the first ten, b to k, and not the most recent ten, c to l.
\<close>

theorem garbage_bound_counterexample:
  "map codePoint (garbage (calls plain (TextInput_new plain ''a'' False False False)
      [StepCall 98 1, StepCall 99 2, StepCall 100 3, StepCall 101 4, StepCall 102 5,
       StepCall 103 6, StepCall 104 7, StepCall 105 8, StepCall 106 9, StepCall 107 10,
       StepCall 108 11])) = [98, 99, 100, 101, 102, 103, 104, 105, 106, 107]
   \<and> map codePoint (garbage (calls plain (TextInput_new plain ''a'' False False False)
      [StepCall 98 1, StepCall 99 2, StepCall 100 3, StepCall 101 4, StepCall 102 5,
       StepCall 103 6, StepCall 104 7, StepCall 105 8, StepCall 106 9, StepCall 107 10,
       StepCall 108 11])) \<noteq> [99, 100, 101, 102, 103, 104, 105, 106, 107, 108]"
  by code_simp

section \<open>The rendering projection\<close>

lemma and_ffffff: "(cp::int) AND 0x00FFFFFF = cp mod 2 ^ 24"
proof -
  have "(0x00FFFFFF::int) = mask 24" by (simp add: mask_eq_exp_minus_1)
  then have "cp AND 0x00FFFFFF = take_bit 24 cp" by (simp only: take_bit_eq_mask)
  then show ?thesis by (simp only: take_bit_eq_mod)
qed

lemma and_ff: "(a::int) AND 0x000000FF = a mod 2 ^ 8"
proof -
  have "(0x000000FF::int) = mask 8" by (simp add: mask_eq_exp_minus_1)
  then have "a AND 0x000000FF = take_bit 8 a" by (simp only: take_bit_eq_mask)
  then show ?thesis by (simp only: take_bit_eq_mod)
qed

lemma or_disjoint: "((cp::int) mod 2 ^ 24) OR push_bit 24 (a mod 2 ^ 8) = cp mod 2 ^ 24 + (a mod 2 ^ 8) * 2 ^ 24"
proof -
  have "\<not> (bit (take_bit 24 cp) n \<and> bit (push_bit 24 (take_bit 8 a)) n)" for n
    by (auto simp: bit_take_bit_iff bit_push_bit_iff)
  then have "take_bit 24 cp + push_bit 24 (take_bit 8 a) = take_bit 24 cp OR push_bit 24 (take_bit 8 a)"
    by (intro disjunctive_add) blast
  then show ?thesis by (simp add: take_bit_eq_mod push_bit_eq_mult)
qed

lemma charKey_arith:
  "charKey cp a = toInt32 (cp mod 2 ^ 24 + (a mod 2 ^ 8) * 2 ^ 24)"
  by (simp only: charKey_def and_ffffff and_ff or_disjoint)

lemma toInt32_inj:
  assumes "0 \<le> x" "x < 2 ^ 32" "0 \<le> y" "y < 2 ^ 32" "toInt32 x = toInt32 y"
  shows "x = y"
  using assms by (auto simp: toInt32_def Let_def split: if_splits)

lemma charKey_inj:
  assumes "0 \<le> cp" "cp < 2 ^ 24" "0 \<le> a" "a < 2 ^ 8"
      and "0 \<le> cp'" "cp' < 2 ^ 24" "0 \<le> a'" "a' < 2 ^ 8"
      and "charKey cp a = charKey cp' a'"
  shows "cp = cp' \<and> a = a'"
proof -
  have m: "cp mod 2 ^ 24 = cp" "a mod 2 ^ 8 = a" "cp' mod 2 ^ 24 = cp'" "a' mod 2 ^ 8 = a'"
    using assms by simp_all
  have "toInt32 (cp + a * 2 ^ 24) = toInt32 (cp' + a' * 2 ^ 24)"
    using assms(9) unfolding charKey_arith m .
  moreover have "0 \<le> cp + a * 2 ^ 24" "cp + a * 2 ^ 24 < 2 ^ 32"
    "0 \<le> cp' + a' * 2 ^ 24" "cp' + a' * 2 ^ 24 < 2 ^ 32"
    using assms by simp_all
  ultimately have "cp + a * 2 ^ 24 = cp' + a' * 2 ^ 24"
    by (rule toInt32_inj [rotated -1])
  then have e: "cp + a * 2 ^ 24 = cp' + a' * 2 ^ 24" .
  then have "(cp + a * 2 ^ 24) mod 2 ^ 24 = (cp' + a' * 2 ^ 24) mod 2 ^ 24" by simp
  then have "cp mod 2 ^ 24 = cp' mod 2 ^ 24" by (simp only: mod_mult_self1)
  then have "cp = cp'" by (simp only: m)
  with e show ?thesis by simp
qed

lemma toChars_Nil [simp]: "toChars [] r = r"
  by (simp add: toChars_def)

lemma toChars_Cons [simp]: "toChars ((cp, a) # rs) r = toChars rs (pushChar cp a r)"
  by (simp add: toChars_def)

lemma toChars_append [simp]: "toChars (rs @ rs') r = toChars rs' (toChars rs r)"
  by (simp add: toChars_def)

lemma pushGarbage_toChars:
  "pushGarbage A gs r = toChars (map (\<lambda>g. (codePoint g, attrGarbage A)) gs) r"
  by (induction gs arbitrary: r) simp_all

lemma getChars_loop_toChars:
  "getChars_loop A ti i r =
     toChars (concat (map (charRequestsAt A ti) [i..<length (codePoints ti)])) r"
proof (induction A ti i r rule: getChars_loop.induct)
  case (1 A ti i r)
  show ?case
  proof (cases "i < length (codePoints ti)")
    case False
    then show ?thesis by (subst getChars_loop.simps) simp
  next
    case True
    then have u: "[i..<length (codePoints ti)] = i # [i + 1..<length (codePoints ti)]"
      by (simp add: upt_conv_Cons)
    consider (before) "i < length (steps ti)" | (at) "i = length (steps ti)"
      | (after) "\<not> i < length (steps ti)" "i \<noteq> length (steps ti)"
      by blast
    then show ?thesis
    proof cases
      case before
      let ?r = "pushChar (codePoints ti ! i) (if typo (steps ti ! i) then attrMiss A else attrHit A) r"
      have h: "charRequestsAt A ti i =
          [(codePoints ti ! i, if typo (steps ti ! i) then attrMiss A else attrHit A)]"
        using before by (simp add: charRequestsAt_def)
      have "getChars_loop A ti i r = getChars_loop A ti (i + 1) ?r"
        using True before by (subst getChars_loop.simps) (simp add: Let_def)
      also have "\<dots> = toChars (concat (map (charRequestsAt A ti) [i + 1..<length (codePoints ti)])) ?r"
        by (rule "1.IH"(1) [OF True refl before refl])
      also have "\<dots> = toChars (concat (map (charRequestsAt A ti) [i..<length (codePoints ti)])) r"
        by (simp only: u list.map concat.simps h toChars_append toChars_Cons toChars_Nil)
      finally show ?thesis .
    next
      case at
      then have nb: "\<not> i < length (steps ti)" by simp
      let ?r1 = "if \<not> stopOnError ti then pushGarbage A (garbage ti) r else r"
      let ?r = "pushChar (codePoints ti ! i) (attrCursor A) ?r1"
      have h: "charRequestsAt A ti i =
          (if \<not> stopOnError ti then map (\<lambda>g. (codePoint g, attrGarbage A)) (garbage ti) else []) @
          [(codePoints ti ! i, attrCursor A)]"
        using at by (simp add: charRequestsAt_def)
      have r1: "?r1 = toChars (if \<not> stopOnError ti
          then map (\<lambda>g. (codePoint g, attrGarbage A)) (garbage ti) else []) r"
        by (simp add: pushGarbage_toChars)
      have "getChars_loop A ti i r = getChars_loop A ti (i + 1) ?r"
        using True nb at by (subst getChars_loop.simps) (simp add: Let_def)
      also have "\<dots> = toChars (concat (map (charRequestsAt A ti) [i + 1..<length (codePoints ti)])) ?r"
        by (rule "1.IH"(2) [OF True refl nb at refl])
      also have "\<dots> = toChars (concat (map (charRequestsAt A ti) [i..<length (codePoints ti)])) r"
        by (simp only: u list.map concat.simps h r1 toChars_append toChars_Cons toChars_Nil)
      finally show ?thesis .
    next
      case after
      let ?r = "pushChar (codePoints ti ! i) (attrNormal A) r"
      have h: "charRequestsAt A ti i = [(codePoints ti ! i, attrNormal A)]"
        using after by (simp add: charRequestsAt_def)
      have "getChars_loop A ti i r = getChars_loop A ti (i + 1) ?r"
        using True after by (subst getChars_loop.simps) (simp add: Let_def)
      also have "\<dots> = toChars (concat (map (charRequestsAt A ti) [i + 1..<length (codePoints ti)])) ?r"
        by (rule "1.IH"(3) [OF True refl after])
      also have "\<dots> = toChars (concat (map (charRequestsAt A ti) [i..<length (codePoints ti)])) r"
        by (simp only: u list.map concat.simps h toChars_append toChars_Cons toChars_Nil)
      finally show ?thesis .
    qed
  qed
qed

lemma map_nth_drop:
  "map (\<lambda>i. g (xs ! i)) [k..<length xs] = map g (drop k xs)"
  by (rule nth_equalityI) simp_all

lemma map_nth_zip:
  "map (\<lambda>i. f (xs ! i) (ys ! i)) [0..<min (length xs) (length ys)] =
   map (\<lambda>(x, y). f x y) (zip xs ys)"
  by (rule nth_equalityI) simp_all

lemma concat_map_single:
  assumes "\<And>i. i \<in> set is \<Longrightarrow> F i = [h i]"
  shows "concat (map F is) = map h is"
  using assms by (induction "is") simp_all

lemma charRequests_closed:
  "concat (map (charRequestsAt A ti) [0..<length (codePoints ti)]) =
     map (\<lambda>(cp, st). (cp, if typo st then attrMiss A else attrHit A))
       (zip (codePoints ti) (steps ti)) @
     (if length (steps ti) < length (codePoints ti) then
        (if stopOnError ti then []
         else map (\<lambda>g. (codePoint g, attrGarbage A)) (garbage ti)) @
        [(codePoints ti ! length (steps ti), attrCursor A)]
      else []) @
     map (\<lambda>cp. (cp, attrNormal A)) (drop (Suc (length (steps ti))) (codePoints ti))"
proof -
  let ?n = "length (steps ti)"
  let ?len = "length (codePoints ti)"
  let ?hm = "\<lambda>i. (codePoints ti ! i, if typo (steps ti ! i) then attrMiss A else attrHit A)"
  have before: "concat (map (charRequestsAt A ti) [0..<min ?len ?n]) =
      map (\<lambda>(cp, st). (cp, if typo st then attrMiss A else attrHit A))
        (zip (codePoints ti) (steps ti))"
  proof -
    have "concat (map (charRequestsAt A ti) [0..<min ?len ?n]) = map ?hm [0..<min ?len ?n]"
      by (rule concat_map_single) (simp add: charRequestsAt_def)
    also have "\<dots> = map (\<lambda>(cp, st). (cp, if typo st then attrMiss A else attrHit A))
        (zip (codePoints ti) (steps ti))"
      by (rule map_nth_zip [of "\<lambda>cp st. (cp, if typo st then attrMiss A else attrHit A)"])
    finally show ?thesis .
  qed
  have after: "concat (map (charRequestsAt A ti) [Suc ?n..<?len]) =
      map (\<lambda>cp. (cp, attrNormal A)) (drop (Suc ?n) (codePoints ti))"
  proof -
    have "concat (map (charRequestsAt A ti) [Suc ?n..<?len]) =
        map (\<lambda>i. (codePoints ti ! i, attrNormal A)) [Suc ?n..<?len]"
      by (rule concat_map_single) (simp add: charRequestsAt_def)
    also have "\<dots> = map (\<lambda>cp. (cp, attrNormal A)) (drop (Suc ?n) (codePoints ti))"
      by (rule map_nth_drop)
    finally show ?thesis .
  qed
  show ?thesis
  proof (cases "?n < ?len")
    case True
    then have "[0..<?len] = [0..<?n] @ [?n..<?len]"
      using upt_add_eq_append [of 0 ?n "?len - ?n"] by simp
    also have "[?n..<?len] = ?n # [Suc ?n..<?len]"
      using True by (rule upt_conv_Cons)
    finally have u: "[0..<?len] = [0..<?n] @ ?n # [Suc ?n..<?len]" .
    have m: "min ?len ?n = ?n" using True by simp
    have at: "charRequestsAt A ti ?n =
        (if stopOnError ti then []
         else map (\<lambda>g. (codePoint g, attrGarbage A)) (garbage ti)) @
        [(codePoints ti ! ?n, attrCursor A)]"
      by (simp add: charRequestsAt_def)
    show ?thesis
      unfolding u using True before [unfolded m] by (simp add: after at del: upt_Suc)
  next
    case False
    then have m: "min ?len ?n = ?len" by simp
    show ?thesis
      using False before [unfolded m] by simp
  qed
qed

lemma cache_ok_empty: "cache_ok Map.empty"
  by (simp add: cache_ok_def)

lemma toChar_ok:
  assumes "cache_ok c" "validCodePoint cp" "validAttr a"
  shows "fst (toChar cp a c) = \<lparr>char_codePoint = cp, attrs = a\<rparr> \<and> cache_ok (snd (toChar cp a c))"
proof (cases "c (charKey cp a)")
  case None
  then have "toChar cp a c =
      (\<lparr>char_codePoint = cp, attrs = a\<rparr>, c(charKey cp a \<mapsto> \<lparr>char_codePoint = cp, attrs = a\<rparr>))"
    by (simp add: toChar_def Let_def)
  moreover have "cache_ok (c(charKey cp a \<mapsto> \<lparr>char_codePoint = cp, attrs = a\<rparr>))"
    using assms unfolding cache_ok_def validCodePoint_def validAttr_def
    by (auto split: if_splits)
  ultimately show ?thesis by simp
next
  case (Some ch)
  then have t: "toChar cp a c = (ch, c)" by (simp add: toChar_def Let_def)
  from assms(1) Some have k: "charKey cp a = charKey (char_codePoint ch) (attrs ch)"
    "0 \<le> char_codePoint ch" "char_codePoint ch < 2 ^ 24" "0 \<le> attrs ch" "attrs ch < 2 ^ 8"
    unfolding cache_ok_def by blast+
  from assms(2,3) have v: "0 \<le> cp" "cp < 2 ^ 24" "0 \<le> a" "a < 2 ^ 8"
    by (simp_all add: validCodePoint_def validAttr_def)
  from charKey_inj [OF v k(2-5) k(1)] have "ch = \<lparr>char_codePoint = cp, attrs = a\<rparr>"
    by simp
  then show ?thesis using t assms(1) by simp
qed

lemma toChars_ok:
  assumes "cache_ok c" "\<forall>(cp, a) \<in> set rs. validCodePoint cp \<and> validAttr a"
  shows "fst (toChars rs (chars, c)) = chars @ map (\<lambda>(cp, a). \<lparr>char_codePoint = cp, attrs = a\<rparr>) rs
         \<and> cache_ok (snd (toChars rs (chars, c)))"
  using assms
proof (induction rs arbitrary: chars c)
  case Nil
  then show ?case by simp
next
  case (Cons r rs)
  obtain cp a where r: "r = (cp, a)" by (cases r)
  from Cons.prems r have v: "validCodePoint cp" "validAttr a" by simp_all
  from toChar_ok [OF Cons.prems(1) v] obtain c' where
    t: "toChar cp a c = (\<lparr>char_codePoint = cp, attrs = a\<rparr>, c')" and ok: "cache_ok c'"
    by (cases "toChar cp a c") auto
  have p: "pushChar cp a (chars, c) = (chars @ [\<lparr>char_codePoint = cp, attrs = a\<rparr>], c')"
    using t by (simp add: pushChar_def)
  from Cons.prems(2) have rest: "\<forall>(cp, a) \<in> set rs. validCodePoint cp \<and> validAttr a" by simp
  from Cons.IH [OF ok rest, of "chars @ [\<lparr>char_codePoint = cp, attrs = a\<rparr>]"]
  show ?case using r p by simp
qed

lemma toChar_grows:
  "toChar cp a c = (ch, c') \<Longrightarrow> c \<subseteq>\<^sub>m c' \<and> c' (charKey cp a) = Some ch"
  by (cases "c (charKey cp a)") (auto simp: toChar_def Let_def map_le_def)

lemma toChar_hit: "c (charKey cp a) = Some ch \<Longrightarrow> toChar cp a c = (ch, c)"
  by (simp add: toChar_def Let_def)

lemma toChars_grows: "toChars rs (chars, c) = (R, c') \<Longrightarrow> c \<subseteq>\<^sub>m c'"
proof (induction rs arbitrary: chars c)
  case Nil
  then show ?case by simp
next
  case (Cons r rs)
  obtain cp a where r: "r = (cp, a)" by (cases r)
  obtain ch c1 where t: "toChar cp a c = (ch, c1)" by (cases "toChar cp a c")
  then have p: "pushChar cp a (chars, c) = (chars @ [ch], c1)" by (simp add: pushChar_def)
  from Cons.prems r p have "toChars rs (chars @ [ch], c1) = (R, c')" by simp
  from Cons.IH [OF this] toChar_grows [OF t] show ?case by (blast intro: map_le_trans)
qed

lemma toChars_replay:
  "toChars rs (chars, c) = (R, c1) \<Longrightarrow> c1 \<subseteq>\<^sub>m c2 \<Longrightarrow> toChars rs (chars, c2) = (R, c2)"
proof (induction rs arbitrary: chars c)
  case Nil
  then show ?case by simp
next
  case (Cons r rs)
  obtain cp a where r: "r = (cp, a)" by (cases r)
  obtain ch c' where t: "toChar cp a c = (ch, c')" by (cases "toChar cp a c")
  then have p: "pushChar cp a (chars, c) = (chars @ [ch], c')" by (simp add: pushChar_def)
  from Cons.prems(1) r p have rest: "toChars rs (chars @ [ch], c') = (R, c1)" by simp
  from toChar_grows [OF t] have "c' (charKey cp a) = Some ch" by simp
  moreover from toChars_grows [OF rest] have "c' \<subseteq>\<^sub>m c1" .
  ultimately have "c2 (charKey cp a) = Some ch"
    using Cons.prems(2) by (metis domI map_le_def)
  then have "pushChar cp a (chars, c2) = (chars @ [ch], c2)"
    by (simp add: pushChar_def toChar_hit)
  moreover from Cons.IH [OF rest Cons.prems(2)]
  have "toChars rs (chars @ [ch], c2) = (R, c2)" .
  ultimately show ?case using r by simp
qed

lemma getChars_toChars:
  "getChars A ti cache =
     toChars (concat (map (charRequestsAt A ti) [0..<length (codePoints ti)])) ([], cache)"
  by (simp add: getChars_def getChars_loop_toChars)

lemma getChars_replay:
  "getChars A ti c0 = (chars, c1) \<Longrightarrow> c1 \<subseteq>\<^sub>m c2 \<Longrightarrow> getChars A ti c2 = (chars, c2)"
  unfolding getChars_toChars by (rule toChars_replay)

text \<open>
  Claim C8. For every state, \<^verbatim>\<open>getChars\<close> returns, in order: for each position of the text
  before the cursor, the code point of the text annotated \<^verbatim>\<open>attrMiss\<close> if the step
  committed there is a typo and \<^verbatim>\<open>attrHit\<close> otherwise; at the cursor, unless
  \<open>stopOnError\<close> is set, one entry annotated \<^verbatim>\<open>attrGarbage\<close> per garbage entry, then the
  expected code point annotated \<^verbatim>\<open>attrCursor\<close>; for each position after the cursor, the
  code point annotated \<^verbatim>\<open>attrNormal\<close>. The code points are those of Unicode (below
  \<open>2^24\<close>), the attribute constants fit 8 bits, and the character cache is one that such
  calls have filled. \<^verbatim>\<open>getChars\<close> takes the state and returns the characters and the
  cache: it has no state of the machine to return, as the source assigns to no field.
\<close>

theorem rendering_projection:
  assumes "cache_ok cache" and "validAttrs A"
    and "\<forall>cp \<in> set (codePoints ti). validCodePoint cp"
    and "\<forall>g \<in> set (garbage ti). validCodePoint (codePoint g)"
  shows "fst (getChars A ti cache) =
     map (\<lambda>(cp, st). \<lparr>char_codePoint = cp, attrs = if typo st then attrMiss A else attrHit A\<rparr>)
       (zip (codePoints ti) (steps ti)) @
     (if length (steps ti) < length (codePoints ti) then
        (if stopOnError ti then []
         else map (\<lambda>g. \<lparr>char_codePoint = codePoint g, attrs = attrGarbage A\<rparr>) (garbage ti)) @
        [\<lparr>char_codePoint = codePoints ti ! length (steps ti), attrs = attrCursor A\<rparr>]
      else []) @
     map (\<lambda>cp. \<lparr>char_codePoint = cp, attrs = attrNormal A\<rparr>)
       (drop (Suc (length (steps ti))) (codePoints ti))
   \<and> cache_ok (snd (getChars A ti cache))"
proof -
  let ?rs = "concat (map (charRequestsAt A ti) [0..<length (codePoints ti)])"
  have closed: "?rs =
     map (\<lambda>(cp, st). (cp, if typo st then attrMiss A else attrHit A))
       (zip (codePoints ti) (steps ti)) @
     (if length (steps ti) < length (codePoints ti) then
        (if stopOnError ti then []
         else map (\<lambda>g. (codePoint g, attrGarbage A)) (garbage ti)) @
        [(codePoints ti ! length (steps ti), attrCursor A)]
      else []) @
     map (\<lambda>cp. (cp, attrNormal A)) (drop (Suc (length (steps ti))) (codePoints ti))"
    by (rule charRequests_closed)
  have a: "validAttr (attrNormal A)" "validAttr (attrHit A)" "validAttr (attrMiss A)"
    "validAttr (attrGarbage A)" "validAttr (attrCursor A)"
    using assms(2) by (simp_all add: validAttrs_def)
  have z: "validCodePoint cp" if "(cp, st) \<in> set (zip (codePoints ti) (steps ti))" for cp st
    using assms(3) set_zip_leftD [OF that] by blast
  have d: "validCodePoint cp" if "cp \<in> set (drop (Suc (length (steps ti))) (codePoints ti))" for cp
    using assms(3) in_set_dropD [OF that] by blast
  have n: "validCodePoint (codePoints ti ! length (steps ti))"
    if "length (steps ti) < length (codePoints ti)"
    using assms(3) nth_mem [OF that] by blast
  have valid: "\<forall>(cp, a) \<in> set ?rs. validCodePoint cp \<and> validAttr a"
    unfolding closed using a z d n assms(4) by (auto split: if_splits)
  from toChars_ok [OF assms(1) valid, of "[]"]
  have "fst (getChars A ti cache) = map (\<lambda>(cp, a). \<lparr>char_codePoint = cp, attrs = a\<rparr>) ?rs"
    and ok: "cache_ok (snd (getChars A ti cache))"
    by (simp_all add: getChars_toChars)
  then show ?thesis unfolding closed by (simp add: case_prod_unfold comp_def)
qed

theorem rendering_projection_witness:
  "fst (getChars
      \<lparr>attrNormal = 0, attrHit = 1, attrMiss = 2, attrGarbage = 4, attrCursor = 8\<rparr>
      \<lparr>text' = ''abcd'', codePoints = [97, 98, 99, 100], stopOnError = False,
        forgiveErrors = False, spaceSkipsWords = False,
        steps = [\<lparr>codePoint = 97, timeStamp = 1, typo = True\<rparr>,
                 \<lparr>codePoint = 98, timeStamp = 2, typo = False\<rparr>],
        garbage = [\<lparr>codePoint = 120, timeStamp = 3, typo = False\<rparr>], typoFlag = True\<rparr>
      Map.empty) =
   [\<lparr>char_codePoint = 97, attrs = 2\<rparr>, \<lparr>char_codePoint = 98, attrs = 1\<rparr>,
    \<lparr>char_codePoint = 120, attrs = 4\<rparr>, \<lparr>char_codePoint = 99, attrs = 8\<rparr>,
    \<lparr>char_codePoint = 100, attrs = 0\<rparr>]"
proof -
  have c: "cache_ok Map.empty" by (rule cache_ok_empty)
  have a: "validAttrs \<lparr>attrNormal = 0, attrHit = 1, attrMiss = 2, attrGarbage = 4, attrCursor = 8\<rparr>"
    by (simp add: validAttrs_def validAttr_def)
  from rendering_projection [OF c a, of
      "\<lparr>text' = ''abcd'', codePoints = [97, 98, 99, 100], stopOnError = False,
        forgiveErrors = False, spaceSkipsWords = False,
        steps = [\<lparr>codePoint = 97, timeStamp = 1, typo = True\<rparr>,
                 \<lparr>codePoint = 98, timeStamp = 2, typo = False\<rparr>],
        garbage = [\<lparr>codePoint = 120, timeStamp = 3, typo = False\<rparr>], typoFlag = True\<rparr>"]
  show ?thesis by (simp add: validCodePoint_def)
qed

section \<open>Replay after reset\<close>

lemma step_fields:
  assumes "step u ti cp0 ts = Inr (fb, ti', out)"
  shows "text' ti' = text' ti \<and> codePoints ti' = codePoints ti \<and>
         stopOnError ti' = stopOnError ti \<and> forgiveErrors ti' = forgiveErrors ti \<and>
         spaceSkipsWords ti' = spaceSkipsWords ti"
  using assms by (cases rule: step_outcome_cases) simp_all

lemma run_fields:
  "run u ti ins = (fbs, ti', out) \<Longrightarrow>
     text' ti' = text' ti \<and> codePoints ti' = codePoints ti \<and>
     stopOnError ti' = stopOnError ti \<and> forgiveErrors ti' = forgiveErrors ti \<and>
     spaceSkipsWords ti' = spaceSkipsWords ti"
proof (induction ins arbitrary: ti fbs ti' out)
  case Nil
  then show ?case by simp
next
  case (Cons a ins)
  obtain cp ts where a: "a = (cp, ts)" by (cases a)
  show ?case
  proof (cases "step u ti cp ts")
    case (Inl e)
    obtain fbs2 ti2 out2 where r2: "run u ti ins = (fbs2, ti2, out2)" by (cases "run u ti ins")
    have "ti' = ti2" using Cons.prems a Inl r2 by simp
    with Cons.IH [OF r2] show ?thesis by simp
  next
    case (Inr r)
    obtain fb ti1 out1 where r: "r = (fb, ti1, out1)" by (cases r)
    obtain fbs2 ti2 out2 where r2: "run u ti1 ins = (fbs2, ti2, out2)" by (cases "run u ti1 ins")
    have "ti' = ti2" using Cons.prems a Inr r r2 by simp
    with Cons.IH [OF r2] step_fields [OF Inr [unfolded r]] show ?thesis by simp
  qed
qed

lemma reset_cong:
  assumes "text' a = text' b" "codePoints a = codePoints b" "stopOnError a = stopOnError b"
    "forgiveErrors a = forgiveErrors b" "spaceSkipsWords a = spaceSkipsWords b"
  shows "reset a = reset b"
  using assms by (cases a, cases b) (simp add: reset_def)

lemma reset_new: "reset (TextInput_new u txt soe fe ssw) = TextInput_new u txt soe fe ssw"
  by (simp add: TextInput_new_def reset_def)

text \<open>
  Claim C9. Run a sequence of inputs on a new machine, call \<open>reset\<close>, and run the same
  sequence again: the second run yields the same outcomes call by call, the same final
  state (so the same committed steps, with their code points, time stamps and typo
  flags), and hands the same steps to the listener. \<^verbatim>\<open>getChars\<close> on the final state
  returns the same characters again from any later state of the character cache. A call
  after completion throws in both runs. The helpers of \<open>u\<close> are functions of their
  arguments, and no clock is read.
\<close>

theorem replay_determinism:
  assumes "run u (TextInput_new u txt soe fe ssw) ins = (fbs, ti1, out)"
  shows "run u (reset ti1) ins = (fbs, ti1, out) \<and>
         (\<forall>A c0 chars c1 c2. getChars A ti1 c0 = (chars, c1) \<and> c1 \<subseteq>\<^sub>m c2 \<longrightarrow>
            getChars A ti1 c2 = (chars, c2))"
proof -
  from run_fields [OF assms] have "reset ti1 = reset (TextInput_new u txt soe fe ssw)"
    by (intro reset_cong) simp_all
  then have "reset ti1 = TextInput_new u txt soe fe ssw" by (simp only: reset_new)
  with assms have "run u (reset ti1) ins = (fbs, ti1, out)" by simp
  moreover have "\<forall>A c0 chars c1 c2. getChars A ti1 c0 = (chars, c1) \<and> c1 \<subseteq>\<^sub>m c2 \<longrightarrow>
            getChars A ti1 c2 = (chars, c2)"
    using getChars_replay by blast
  ultimately show ?thesis by (rule conjI)
qed

theorem replay_determinism_witness:
  "run plain (TextInput_new plain ''ab'' False True False) [(120, 1), (8, 2), (97, 3), (98, 4)] =
     ([Inr Failed, Inr Succeeded, Inr Recovered, Inr Succeeded],
      \<lparr>text' = ''ab'', codePoints = [97, 98], stopOnError = False, forgiveErrors = True,
        spaceSkipsWords = False,
        steps = [\<lparr>codePoint = 97, timeStamp = 3, typo = True\<rparr>,
                 \<lparr>codePoint = 98, timeStamp = 4, typo = False\<rparr>],
        garbage = [], typoFlag = False\<rparr>,
      [\<lparr>codePoint = 97, timeStamp = 3, typo = True\<rparr>,
       \<lparr>codePoint = 98, timeStamp = 4, typo = False\<rparr>])
   \<and> run plain
     (reset \<lparr>text' = ''ab'', codePoints = [97, 98], stopOnError = False, forgiveErrors = True,
        spaceSkipsWords = False,
        steps = [\<lparr>codePoint = 97, timeStamp = 3, typo = True\<rparr>,
                 \<lparr>codePoint = 98, timeStamp = 4, typo = False\<rparr>],
        garbage = [], typoFlag = False\<rparr>) [(120, 1), (8, 2), (97, 3), (98, 4)] =
     ([Inr Failed, Inr Succeeded, Inr Recovered, Inr Succeeded],
      \<lparr>text' = ''ab'', codePoints = [97, 98], stopOnError = False, forgiveErrors = True,
        spaceSkipsWords = False,
        steps = [\<lparr>codePoint = 97, timeStamp = 3, typo = True\<rparr>,
                 \<lparr>codePoint = 98, timeStamp = 4, typo = False\<rparr>],
        garbage = [], typoFlag = False\<rparr>,
      [\<lparr>codePoint = 97, timeStamp = 3, typo = True\<rparr>,
       \<lparr>codePoint = 98, timeStamp = 4, typo = False\<rparr>])"
proof -
  have r: "run plain (TextInput_new plain ''ab'' False True False)
      [(120, 1), (8, 2), (97, 3), (98, 4)] =
     ([Inr Failed, Inr Succeeded, Inr Recovered, Inr Succeeded],
      \<lparr>text' = ''ab'', codePoints = [97, 98], stopOnError = False, forgiveErrors = True,
        spaceSkipsWords = False,
        steps = [\<lparr>codePoint = 97, timeStamp = 3, typo = True\<rparr>,
                 \<lparr>codePoint = 98, timeStamp = 4, typo = False\<rparr>],
        garbage = [], typoFlag = False\<rparr>,
      [\<lparr>codePoint = 97, timeStamp = 3, typo = True\<rparr>,
       \<lparr>codePoint = 98, timeStamp = 4, typo = False\<rparr>])"
    by code_simp
  from replay_determinism [OF r] r show ?thesis by blast
qed

section \<open>The histogram\<close>

text \<open>The rounding to doubles: its exponent, its overflow test, and the integers it keeps.\<close>

lemma overflow_test: "1024 < bitlen \<lfloor>r\<rfloor> \<longleftrightarrow> 2 ^ 1024 \<le> r" for r :: real
proof -
  have "1024 < bitlen \<lfloor>r\<rfloor> \<longleftrightarrow> 1025 \<le> bitlen \<lfloor>r\<rfloor>" by linarith
  also have "\<dots> \<longleftrightarrow> (2::int) ^ 1024 \<le> \<lfloor>r\<rfloor>"
    using bitlen_ge_iff_power [of 1025 "\<lfloor>r\<rfloor>"] by simp
  also have "\<dots> \<longleftrightarrow> 2 ^ 1024 \<le> r"
    using le_floor_iff [of "2 ^ 1024" r] by simp
  finally show ?thesis .
qed

lemma doubleExponent_bounds:
  assumes "0 < a"
  shows "pow2 (doubleExponent a) \<le> a \<and> a < pow2 (doubleExponent a + 1)"
proof (cases "1 \<le> a")
  case True
  let ?z = "\<lfloor>a\<rfloor>"
  have z: "0 < ?z" using True by linarith
  have b1: "1 \<le> bitlen ?z" using z by (simp add: bitlen_alt_def)
  from bitlen_bounds [OF z] have lo: "2 ^ nat (bitlen ?z - 1) \<le> ?z"
    and hi: "?z < 2 ^ nat (bitlen ?z)" by simp_all
  have e: "doubleExponent a = bitlen ?z - 1" using True by (simp add: doubleExponent_def)
  have "real_of_int (2 ^ nat (bitlen ?z - 1)) \<le> a"
    using lo by (meson le_floor_iff)
  then have l: "pow2 (bitlen ?z - 1) \<le> a" using b1 by (simp add: pow2_def)
  have "a < real_of_int (2 ^ nat (bitlen ?z))"
    using hi by (meson floor_less_iff)
  then have h: "a < pow2 (bitlen ?z)" using b1 by (simp add: pow2_def)
  show ?thesis using l h by (simp add: e)
next
  case False
  then have a1: "a < 1" by simp
  let ?n = "\<lceil>1 / a\<rceil>"
  have y: "1 < 1 / a" using assms a1 by simp
  then have n2: "2 \<le> ?n" by linarith
  then have z: "0 < ?n - 1" by simp
  let ?b = "bitlen (?n - 1)"
  have b1: "1 \<le> ?b" using z by (simp add: bitlen_alt_def)
  from bitlen_bounds [OF z] have lo: "2 ^ nat (?b - 1) \<le> ?n - 1"
    and hi: "?n - 1 < 2 ^ nat ?b" by simp_all
  have e: "doubleExponent a = - ?b" using False by (simp add: doubleExponent_def)
  have "1 / a \<le> real_of_int ?n" by simp
  also have "real_of_int ?n \<le> 2 ^ nat ?b"
  proof -
    from hi have "?n \<le> 2 ^ nat ?b" by linarith
    then have "real_of_int ?n \<le> real_of_int (2 ^ nat ?b)" by (rule of_int_le_iff [THEN iffD2])
    then show ?thesis by simp
  qed
  finally have "1 / a \<le> 2 ^ nat ?b" .
  then have "1 \<le> 2 ^ nat ?b * a" using assms by (simp add: field_simps)
  then have l: "1 / 2 ^ nat ?b \<le> a" by (simp add: field_simps)
  have "real_of_int (?n - 1) < 1 / a" by linarith
  moreover have "real_of_int (2 ^ nat (?b - 1)) \<le> real_of_int (?n - 1)"
    using lo by (rule of_int_le_iff [THEN iffD2])
  ultimately have "2 ^ nat (?b - 1) < 1 / a" by simp
  then have "2 ^ nat (?b - 1) * a < 1" using assms by (simp add: field_simps)
  then have h: "a < 1 / 2 ^ nat (?b - 1)" by (simp add: field_simps)
  have p1: "pow2 (- ?b) = 1 / 2 ^ nat ?b" using b1 by (simp add: pow2_def)
  have p2: "pow2 (- ?b + 1) = 1 / 2 ^ nat (?b - 1)"
  proof (cases "?b = 1")
    case True
    then show ?thesis by (simp add: pow2_def)
  next
    case False
    then have "- ?b + 1 < 0" using b1 by linarith
    moreover have "nat (- (- ?b + 1)) = nat (?b - 1)" by simp
    ultimately show ?thesis by (simp add: pow2_def)
  qed
  show ?thesis using l h by (simp only: e p1 p2)
qed

lemma roundHalfEven_of_int: "roundHalfEven (of_int z) = z"
  by (simp add: roundHalfEven_def)

lemma pow2_scale:
  assumes "k \<le> 0"
  shows "real_of_int a / pow2 k = of_int (a * 2 ^ nat (- k))"
    and "of_int (a * 2 ^ nat (- k)) * pow2 k = real_of_int a"
  using assms by (auto simp: pow2_def)

lemma roundToDouble_of_int:
  assumes "\<bar>n\<bar> \<le> 2 ^ 53"
  shows "roundToDouble (of_int n) = Finite (of_int n)"
proof -
  define a where "a = \<bar>n\<bar>"
  define k where "k = max (doubleExponent (real_of_int a) - 52) (- 1074)"
  have a0: "0 \<le> a" and a53: "a \<le> 2 ^ 53" using assms by (simp_all add: a_def)
  have abs: "\<bar>real_of_int n\<bar> = real_of_int a" by (simp add: a_def)
  have m: "of_int (roundHalfEven (real_of_int a / pow2 k)) * pow2 k = real_of_int a"
  proof (cases "a = 0")
    case True
    then show ?thesis by (simp add: roundHalfEven_def)
  next
    case False
    then have pos: "0 < a" using a0 by simp
    then have one: "1 \<le> real_of_int a" by simp
    have e: "doubleExponent (real_of_int a) = bitlen a - 1"
      using one by (simp add: doubleExponent_def)
    from bitlen_bounds [OF pos] have lo: "2 ^ nat (bitlen a - 1) \<le> a" by simp
    have b1: "1 \<le> bitlen a" using pos by (simp add: bitlen_alt_def)
    have "(2::int) ^ nat (bitlen a - 1) \<le> 2 ^ 53" using lo a53 by linarith
    then have "nat (bitlen a - 1) \<le> 53"
      using power_le_imp_le_exp [of "2::int" "nat (bitlen a - 1)" 53] by simp
    then have b54: "bitlen a \<le> 54" by linarith
    have k: "k = bitlen a - 53" using b1 by (simp add: k_def e)
    show ?thesis
    proof (cases "k \<le> 0")
      case True
      show ?thesis
        by (simp only: pow2_scale [OF True] roundHalfEven_of_int)
    next
      case False
      then have "bitlen a = 54" using k b54 by linarith
      with lo have "2 ^ 53 \<le> a" by simp
      with a53 have a: "a = 2 ^ 53" by simp
      have k1: "k = 1" using k \<open>bitlen a = 54\<close> by simp
      have "real_of_int a / pow2 k = of_int (2 ^ 52)" by (simp add: a k1 pow2_def)
      then have "roundHalfEven (real_of_int a / pow2 k) = 2 ^ 52"
        by (simp only: roundHalfEven_of_int)
      then show ?thesis by (simp add: a k1 pow2_def)
    qed
  qed
  have small: "\<not> 1024 < bitlen a"
  proof (cases "0 < a")
    case True
    from bitlen_bounds [OF True] have "(2::int) ^ nat (bitlen a - 1) \<le> 2 ^ 53"
      using a53 by linarith
    then have "nat (bitlen a - 1) \<le> 53"
      using power_le_imp_le_exp [of "2::int" "nat (bitlen a - 1)" 53] by simp
    then show ?thesis by linarith
  next
    case False
    then have "a = 0" using a0 by simp
    then show ?thesis by simp
  qed
  have sign: "(if 0 \<le> real_of_int n then real_of_int a else - real_of_int a) = real_of_int n"
    by (simp add: a_def)
  show ?thesis
    unfolding roundToDouble_def Let_def abs k_def [symmetric] m
    using small sign by simp
qed

lemma doubleLatency_exact:
  assumes "\<bar>t\<bar> \<le> 2 ^ 53" "\<bar>p\<bar> \<le> 2 ^ 53" "\<bar>t - p\<bar> \<le> 2 ^ 53"
  shows "doubleLatency (t, p) = Finite (of_int (t - p))"
proof -
  have "doubleLatency (t, p) = roundToDouble (of_int (t - p))"
    using assms(1,2) by (simp add: doubleLatency_def toNumber_def roundToDouble_of_int)
  then show ?thesis using assms(3) by (simp only: roundToDouble_of_int)
qed

lemma foldl_num_add_exact:
  assumes "\<bar>acc\<bar> + sum_list (map (\<lambda>d. \<bar>fst d - snd d\<bar>) ds) \<le> 2 ^ 53"
    and "\<forall>d \<in> set ds. \<bar>fst d\<bar> \<le> 2 ^ 53 \<and> \<bar>snd d\<bar> \<le> 2 ^ 53"
  shows "foldl num_add (Finite (of_int acc)) (map doubleLatency ds) =
         Finite (of_int (acc + sum_list (map (\<lambda>d. fst d - snd d) ds)))"
  using assms
proof (induction ds arbitrary: acc)
  case Nil
  then show ?case by simp
next
  case (Cons d ds)
  obtain t p where d: "d = (t, p)" by (cases d)
  have nonneg: "0 \<le> sum_list (map (\<lambda>d. \<bar>fst d - snd d\<bar>) ds)"
    by (rule sum_list_nonneg) auto
  from Cons.prems(1) d nonneg have lat: "\<bar>t - p\<bar> \<le> 2 ^ 53" by simp
  from Cons.prems(2) d have tp: "\<bar>t\<bar> \<le> 2 ^ 53" "\<bar>p\<bar> \<le> 2 ^ 53" by simp_all
  have dl: "doubleLatency d = Finite (of_int (t - p))"
    unfolding d using tp lat by (rule doubleLatency_exact)
  from Cons.prems(1) d nonneg have acc': "\<bar>acc + (t - p)\<bar> \<le> 2 ^ 53" by simp
  have add: "num_add (Finite (of_int acc)) (Finite (of_int (t - p))) =
      Finite (of_int (acc + (t - p)))"
    using roundToDouble_of_int [OF acc'] by simp
  from Cons.prems(1) d have rest:
    "\<bar>acc + (t - p)\<bar> + sum_list (map (\<lambda>d. \<bar>fst d - snd d\<bar>) ds) \<le> 2 ^ 53"
    by simp
  from Cons.prems(2) have rest2: "\<forall>d \<in> set ds. \<bar>fst d\<bar> \<le> 2 ^ 53 \<and> \<bar>snd d\<bar> \<le> 2 ^ 53"
    by simp
  have "foldl num_add (Finite (of_int acc)) (map doubleLatency (d # ds)) =
      foldl num_add (Finite (of_int (acc + (t - p)))) (map doubleLatency ds)"
    by (simp only: list.map foldl_Cons dl add)
  also have "\<dots> = Finite (of_int (acc + (t - p) + sum_list (map (\<lambda>d. fst d - snd d) ds)))"
    by (rule Cons.IH [OF rest rest2])
  also have "acc + (t - p) + sum_list (map (\<lambda>d. fst d - snd d) ds) =
      acc + sum_list (map (\<lambda>d. fst d - snd d) (d # ds))"
    by (simp add: d)
  finally show ?case .
qed

lemma roundToDouble_examples:
  "roundToDouble 9007199254740993 = Finite 9007199254740992"
  "roundToDouble 9007199254740995 = Finite 9007199254740996"
  "roundToDouble (1 / 10) = Finite (3602879701896397 / 2 ^ 55)"
  "roundToDouble (10 / 3) = Finite (7505999378950827 / 2 ^ 51)"
  "roundToDouble (- 5 / 2) = Finite (- 5 / 2)"
  by code_simp+

text \<open>The sample of a code point, for every sequence of steps.\<close>

lemma nonTypoStamps_absent:
  "c \<notin> codePoint ` set sts \<Longrightarrow> nonTypoStamps prev sts c = []"
  by (induction sts arbitrary: prev) (auto split: option.splits)

lemma filter_absent:
  "c \<notin> codePoint ` set sts \<Longrightarrow> filter (\<lambda>s. codePoint s = c) sts = []"
  by (induction sts) auto

lemma filter_absent_typo:
  "c \<notin> codePoint ` set sts \<Longrightarrow> filter (\<lambda>s. codePoint s = c \<and> typo s) sts = []"
  by (induction sts) auto

lemma tally_absent: "c \<notin> codePoint ` set sts \<Longrightarrow> tally c prev sts a = a"
  by (simp add: tally_def nonTypoStamps_absent filter_absent filter_absent_typo)

lemma tally_Cons_other:
  "codePoint st \<noteq> c \<Longrightarrow> tally c prev (st # rest) a = tally c (Some (timeStamp st)) rest a"
  by (simp add: tally_def split: option.splits)

lemma tally_Cons_same:
  "codePoint st = c \<Longrightarrow>
   tally c prev (st # rest) a =
     tally c (Some (timeStamp st)) rest
       (if typo st then a\<lparr>hitCount := hitCount a + 1, missCount := missCount a + 1\<rparr>
        else (case prev of
                Some t \<Rightarrow>
                  a\<lparr>hitCount := hitCount a + 1,
                    timeToType := num_add (timeToType a)
                      (num_sub (toNumber (timeStamp st)) (toNumber t))\<rparr>
              | None \<Rightarrow> a\<lparr>hitCount := hitCount a + 1\<rparr>))"
  by (simp add: tally_def doubleLatency_def split: option.splits)

lemma from_loop_map_of:
  "map_of (from_loop sts samples last') c =
     (if c \<in> codePoint ` set sts then
        Some (tally c (map_option timeStamp last') sts
               (case map_of samples c of
                  None \<Rightarrow> \<lparr>hitCount = 0, missCount = 0, timeToType = Finite 0\<rparr>
                | Some s \<Rightarrow> s))
      else map_of samples c)"
proof (induction sts arbitrary: samples last')
  case Nil
  then show ?case by simp
next
  case (Cons st rest)
  let ?zero = "\<lparr>hitCount = 0, missCount = 0, timeToType = Finite 0\<rparr>"
  let ?s0 = "case map_of samples (codePoint st) of None \<Rightarrow> ?zero | Some s \<Rightarrow> s"
  let ?s2 = "if typo st then ?s0\<lparr>hitCount := hitCount ?s0 + 1, missCount := missCount ?s0 + 1\<rparr>
        else (case map_option timeStamp last' of
                Some t \<Rightarrow>
                  ?s0\<lparr>hitCount := hitCount ?s0 + 1,
                      timeToType := num_add (timeToType ?s0)
                        (num_sub (toNumber (timeStamp st)) (toNumber t))\<rparr>
              | None \<Rightarrow> ?s0\<lparr>hitCount := hitCount ?s0 + 1\<rparr>)"
  have unfold: "from_loop (st # rest) samples last' =
      from_loop rest (AList.update (codePoint st) ?s2 samples) (Some st)"
    by (cases last') (simp_all add: Let_def)
  note IH = Cons.IH [of "AList.update (codePoint st) ?s2 samples" "Some st"]
  show ?case
  proof (cases "c = codePoint st")
    case True
    have t: "tally c (map_option timeStamp last') (st # rest) ?s0 =
        tally c (Some (timeStamp st)) rest ?s2"
      unfolding True by (rule tally_Cons_same [OF refl])
    show ?thesis
    proof (cases "c \<in> codePoint ` set rest")
      case in_rest: True
      have "map_of (from_loop (st # rest) samples last') c =
          Some (tally c (Some (timeStamp st)) rest ?s2)"
        unfolding unfold IH using in_rest True by (simp add: update_conv')
      then show ?thesis using True t by simp
    next
      case False
      have "map_of (from_loop (st # rest) samples last') c = Some ?s2"
        unfolding unfold IH using False True by (simp add: update_conv')
      moreover have "tally c (Some (timeStamp st)) rest ?s2 = ?s2"
        using False by (rule tally_absent)
      ultimately show ?thesis using True t by simp
    qed
  next
    case False
    then have ne: "codePoint st \<noteq> c" by simp
    have t: "tally c (map_option timeStamp last') (st # rest) a =
        tally c (Some (timeStamp st)) rest a" for a
      using ne by (rule tally_Cons_other)
    show ?thesis
      unfolding unfold IH using False by (simp add: update_conv' t)
  qed
qed

lemma from_loop_distinct:
  "distinct (map fst samples) \<Longrightarrow> distinct (map fst (from_loop sts samples last'))"
  by (induction sts arbitrary: samples last') (simp_all add: Let_def distinct_update)

lemma fold_update_lookup:
  "map_of (fold (\<lambda>s d. AList.update (k s) s d) xs d0) c =
     (if filter (\<lambda>s. k s = c) xs = [] then map_of d0 c
      else Some (last (filter (\<lambda>s. k s = c) xs)))"
  by (induction xs arbitrary: d0) (auto simp: update_conv')

lemma Histogram_new_get:
  "Histogram_get (Histogram_new ss) c =
     (if filter (\<lambda>s. sample_codePoint s = c) ss = [] then None
      else Some (last (filter (\<lambda>s. sample_codePoint s = c) ss)))"
  by (simp add: Histogram_get_def Histogram_new_def fold_update_lookup sort_key_stable)

lemma filter_fst_distinct:
  "distinct (map fst al) \<Longrightarrow>
   filter (\<lambda>p. fst p = c) al = (case map_of al c of None \<Rightarrow> [] | Some v \<Rightarrow> [(c, v)])"
proof (induction al)
  case Nil
  then show ?case by simp
next
  case (Cons p al)
  obtain k v where p: "p = (k, v)" by (cases p)
  show ?case
  proof (cases "k = c")
    case True
    then have "c \<notin> fst ` set al" using Cons.prems p by auto
    then have "filter (\<lambda>p. fst p = c) al = []" by (auto simp: filter_empty_conv)
    then show ?thesis using True p by simp
  next
    case False
    then show ?thesis using Cons p by simp
  qed
qed

lemma histogram_from_sample:
  "Histogram_get (Histogram_from sts startedAt) c =
     (if c \<in> codePoint ` set sts then
        Some \<lparr>hitCount = length (filter (\<lambda>s. codePoint s = c) sts),
              missCount = length (filter (\<lambda>s. codePoint s = c \<and> typo s) sts),
              timeToType =
                mathRound (num_div
                  (foldl num_add (Finite 0) (map doubleLatency (nonTypoStamps startedAt sts c)))
                  (length (filter (\<lambda>s. codePoint s = c) sts))),
              sample_codePoint = c\<rparr>
      else None)"
proof -
  let ?last = "case startedAt of
                 Some t \<Rightarrow> Some \<lparr>codePoint = 0, timeStamp = t, typo = False\<rparr>
               | None \<Rightarrow> None"
  let ?al = "from_loop sts [] ?last"
  let ?F = "\<lambda>(cp, s). \<lparr>hitCount = hitCount s, missCount = missCount s,
                         timeToType = mathRound (num_div (timeToType s) (hitCount s)),
                         sample_codePoint = cp\<rparr>"
  have prev: "map_option timeStamp ?last = startedAt"
    by (cases startedAt) simp_all
  have look: "map_of ?al c =
      (if c \<in> codePoint ` set sts then
         Some (tally c startedAt sts \<lparr>hitCount = 0, missCount = 0, timeToType = Finite 0\<rparr>)
       else None)"
    by (simp only: from_loop_map_of prev map_of.simps option.case)
  have d: "distinct (map fst ?al)"
    by (rule from_loop_distinct) simp
  have f: "filter (\<lambda>s. sample_codePoint s = c) (map ?F ?al) =
      map ?F (filter (\<lambda>p. fst p = c) ?al)"
    by (simp add: filter_map comp_def case_prod_unfold)
  have g: "Histogram_get (Histogram_from sts startedAt) c =
      (case map_of ?al c of None \<Rightarrow> None | Some v \<Rightarrow> Some (?F (c, v)))"
    unfolding Histogram_from_def Let_def Histogram_new_get f filter_fst_distinct [OF d]
    by (simp split: option.splits)
  show ?thesis
    unfolding g look by (simp add: tally_def)
qed

text \<open>
  While the latencies added for \<open>c\<close> stay within \<open>2^53\<close> in sum, the sum of the doubles
  is the sum of the integers, and only the division rounds.
\<close>

lemma histogram_from_exact:
  assumes "c \<in> codePoint ` set sts"
    and "sum_list (map (\<lambda>d. \<bar>fst d - snd d\<bar>) (nonTypoStamps startedAt sts c)) \<le> 2 ^ 53"
    and "\<forall>d \<in> set (nonTypoStamps startedAt sts c). \<bar>fst d\<bar> \<le> 2 ^ 53 \<and> \<bar>snd d\<bar> \<le> 2 ^ 53"
  shows "Histogram_get (Histogram_from sts startedAt) c =
     Some \<lparr>hitCount = length (filter (\<lambda>s. codePoint s = c) sts),
           missCount = length (filter (\<lambda>s. codePoint s = c \<and> typo s) sts),
           timeToType =
             mathRound (num_div
               (Finite (of_int (sum_list (nonTypoLatencies startedAt sts c))))
               (length (filter (\<lambda>s. codePoint s = c) sts))),
           sample_codePoint = c\<rparr>"
proof -
  have "foldl num_add (Finite (of_int 0)) (map doubleLatency (nonTypoStamps startedAt sts c)) =
      Finite (of_int (0 + sum_list (map (\<lambda>d. fst d - snd d) (nonTypoStamps startedAt sts c))))"
    using assms(2,3) by (intro foldl_num_add_exact) simp_all
  then have "foldl num_add (Finite 0) (map doubleLatency (nonTypoStamps startedAt sts c)) =
      Finite (of_int (sum_list (nonTypoLatencies startedAt sts c)))"
    by (simp add: nonTypoLatencies_def case_prod_unfold)
  then show ?thesis using assms(1) by (simp only: histogram_from_sample if_True)
qed

text \<open>
  Sums beyond \<open>2^53\<close> round as the doubles of the source do: \<open>2^53 - 1 + 2\<close> is \<open>2^53\<close>.
\<close>

lemma histogram_from_rounds_sums:
  "Histogram_get (Histogram_from
      [\<lparr>codePoint = 97, timeStamp = 9007199254740991, typo = False\<rparr>,
       \<lparr>codePoint = 98, timeStamp = 0, typo = False\<rparr>,
       \<lparr>codePoint = 97, timeStamp = 2, typo = False\<rparr>] (Some 0)) 97 =
     Some \<lparr>hitCount = 2, missCount = 0, timeToType = Finite 4503599627370496,
           sample_codePoint = 97\<rparr>"
  by code_simp

text \<open>
  Claim C4. The claim says that \<open>timeToType\<close> is the rounded mean latency over the
  non-typo steps with code point \<open>c\<close>. \<^verbatim>\<open>Histogram.from\<close> adds the latencies of the
  non-typo steps only, but divides the sum by \<open>hitCount\<close>, which also counts the typos
  and a first step that has no latency. On the example of the specification, the steps
  (97, t = 0), (97, t = 10), (97, t = 5, typo) with no \<open>startedAt\<close>, the sample of 97 has
  \<open>hitCount = 3\<close> and \<open>missCount = 1\<close>, as the claim says, and
  \<open>timeToType = round (10 / 3) = 3\<close>, while the only latency of a non-typo step is 10 and
  so is the mean.
\<close>

theorem histogram_from_failing_input:
  "Histogram_get (Histogram_from
      [\<lparr>codePoint = 97, timeStamp = 0, typo = False\<rparr>,
       \<lparr>codePoint = 97, timeStamp = 10, typo = False\<rparr>,
       \<lparr>codePoint = 97, timeStamp = 5, typo = True\<rparr>] None) 97 =
     Some \<lparr>hitCount = 3, missCount = 1, timeToType = Finite 3, sample_codePoint = 97\<rparr>
   \<and> nonTypoLatencies None
      [\<lparr>codePoint = 97, timeStamp = 0, typo = False\<rparr>,
       \<lparr>codePoint = 97, timeStamp = 10, typo = False\<rparr>,
       \<lparr>codePoint = 97, timeStamp = 5, typo = True\<rparr>] 97 = [10]
   \<and> meanLatency None
      [\<lparr>codePoint = 97, timeStamp = 0, typo = False\<rparr>,
       \<lparr>codePoint = 97, timeStamp = 10, typo = False\<rparr>,
       \<lparr>codePoint = 97, timeStamp = 5, typo = True\<rparr>] 97 = 10"
  by code_simp

end
